theory Spec2Isabelle
  imports Complex_Main "HOL-Library.Sublist" "HOL-Library.Word" "HOL-Library.Code_Target_Nat"
begin

section \<open>Numbers\<close>

text \<open>
  The program computes with JavaScript numbers. Pixel counts, byte sizes, qualities and
  tolerance percentages reach the code as integers (the panel parses them with
  \<^verbatim>\<open>parseInt\<close> or \<^verbatim>\<open>Math.round\<close>, an \<^verbatim>\<open>ImageBitmap\<close> has integer sides); ratios and
  size windows are fractions and are modelled as exact reals.

  \<^verbatim>\<open>Math.round(x)\<close> rounds to the nearest integer, a half upwards.
\<close>

definition js_round :: "real \<Rightarrow> int" where
  "js_round x = \<lfloor>x + 1 / 2\<rfloor>"

text \<open>
  An optional numeric parameter (\<^verbatim>\<open>maxWidth?: number\<close>) used as a condition:
  \<^verbatim>\<open>undefined\<close> and \<^verbatim>\<open>0\<close> are falsy.
\<close>

fun truthy :: "nat option \<Rightarrow> bool" where
  "truthy None = False"
| "truthy (Some v) = (v \<noteq> 0)"

section \<open>Dimension calculation (image-utils.ts)\<close>

record dimensions =
  width :: int
  height :: int

text \<open>
  The number read from a bound. The code reads a bound only behind a test that it is
  truthy, so the value given here to an absent bound is never used.
\<close>

fun bound :: "nat option \<Rightarrow> real" where
  "bound None = 0"
| "bound (Some v) = real v"

text \<open>
  \<^verbatim>\<open>calculateNewDimensions(originalWidth, originalHeight, maxWidth?, maxHeight?, maintainAspectRatio)\<close>.
  The two local variables \<^verbatim>\<open>newWidth\<close>, \<^verbatim>\<open>newHeight\<close> are the pair computed by the
  branches; the last line rounds both. The sides of the original are those of a decoded
  bitmap and are positive; with \<open>originalHeight = 0\<close> JavaScript would divide by zero,
  which the theorems below exclude by hypothesis.

  The ratio and the scaled side are exact here, while the code computes them in double
  precision. For sides of the size of a canvas the two agree except when the exact
  scaled side lies midway between two integers: there the double can fall just below the midpoint and the code returns the
  lower integer where this definition gives the upper one (a 1x98 image in a 49x49 box:
  \<open>49 * (1 / 98)\<close> is \<open>1 / 2\<close> exactly and \<open>0.49999999999999994\<close> in doubles). The
  theorems about the scaled side therefore state only what holds for either neighbour
  of such a midpoint.
\<close>

definition calculateNewDimensions ::
  "nat \<Rightarrow> nat \<Rightarrow> nat option \<Rightarrow> nat option \<Rightarrow> bool \<Rightarrow> dimensions" where
  "calculateNewDimensions originalWidth originalHeight maxWidth maxHeight maintainAspectRatio =
    (let aspectRatio = real originalWidth / real originalHeight;
         (newWidth, newHeight) =
           (if maintainAspectRatio then
              (if truthy maxWidth \<and> truthy maxHeight then
                 (if real originalWidth > bound maxWidth \<or> real originalHeight > bound maxHeight then
                    (if bound maxWidth / bound maxHeight > aspectRatio
                     then (real_of_int (js_round (bound maxHeight * aspectRatio)), bound maxHeight)
                     else (bound maxWidth, real_of_int (js_round (bound maxWidth / aspectRatio))))
                  else (real originalWidth, real originalHeight))
               else if truthy maxWidth \<and> real originalWidth > bound maxWidth then
                 (bound maxWidth, real_of_int (js_round (bound maxWidth / aspectRatio)))
               else if truthy maxHeight \<and> real originalHeight > bound maxHeight then
                 (real_of_int (js_round (bound maxHeight * aspectRatio)), bound maxHeight)
               else (real originalWidth, real originalHeight))
            else
              (if truthy maxWidth \<and> real originalWidth > bound maxWidth
               then bound maxWidth else real originalWidth,
               if truthy maxHeight \<and> real originalHeight > bound maxHeight
               then bound maxHeight else real originalHeight))
     in \<lparr>width = js_round newWidth, height = js_round newHeight\<rparr>)"

section \<open>Format sequencer (image-processor.ts, image-utils.ts)\<close>

text \<open>The type \<^verbatim>\<open>OutputFormat = "auto" | "jpeg" | "png" | "webp" | "avif"\<close> and its strings.\<close>

datatype OutputFormat = Auto | Jpeg | Png | Webp | Avif

fun format_string :: "OutputFormat \<Rightarrow> string" where
  "format_string Auto = ''auto''"
| "format_string Jpeg = ''jpeg''"
| "format_string Png = ''png''"
| "format_string Webp = ''webp''"
| "format_string Avif = ''avif''"

text \<open>
  \<^verbatim>\<open>String.prototype.toLowerCase\<close> on the ASCII range: the letters \<open>A\<close> to \<open>Z\<close> (codes 65 to
  90) move to \<open>a\<close> to \<open>z\<close>; every other byte is kept. No character outside ASCII
  lower-cases to one of the letters that the searches below look for without leaving a
  further code unit between them, so the byte-wise reading decides the same searches.
\<close>

definition lower_char :: "char \<Rightarrow> char" where
  "lower_char c =
     (let n = (of_char c :: nat) in if 65 \<le> n \<and> n \<le> 90 then char_of (n + 32) else c)"

definition toLowerCase :: "string \<Rightarrow> string" where
  "toLowerCase s = map lower_char s"

text \<open>\<^verbatim>\<open>s.includes(pat)\<close>: \<open>pat\<close> occurs in \<open>s\<close> as a contiguous substring.\<close>

fun str_includes :: "string \<Rightarrow> string \<Rightarrow> bool" where
  "str_includes [] pat = (pat = [])"
| "str_includes (c # cs) pat = (prefix pat (c # cs) \<or> str_includes cs pat)"

text \<open>\<^verbatim>\<open>getImageTypeFromFormat\<close>: the \<^verbatim>\<open>switch\<close> on the lower-cased format.\<close>

definition getImageTypeFromFormat :: "string \<Rightarrow> string" where
  "getImageTypeFromFormat format =
     (let f = toLowerCase format in
      if f = ''jpeg'' \<or> f = ''jpg'' then ''image/jpeg''
      else if f = ''png'' then ''image/png''
      else if f = ''webp'' then ''image/webp''
      else if f = ''avif'' then ''image/avif''
      else if f = ''gif'' then ''image/gif''
      else ''image/jpeg'')"

text \<open>The four tests \<^verbatim>\<open>determineFormatSequence\<close> makes on the original MIME type.\<close>

definition isOriginalPng :: "string \<Rightarrow> bool" where
  "isOriginalPng originalType = str_includes (toLowerCase originalType) ''png''"

definition isOriginalJpeg :: "string \<Rightarrow> bool" where
  "isOriginalJpeg originalType =
     (str_includes (toLowerCase originalType) ''jpeg'' \<or> str_includes (toLowerCase originalType) ''jpg'')"

definition isOriginalWebP :: "string \<Rightarrow> bool" where
  "isOriginalWebP originalType = str_includes (toLowerCase originalType) ''webp''"

definition isOriginalAvif :: "string \<Rightarrow> bool" where
  "isOriginalAvif originalType = str_includes (toLowerCase originalType) ''avif''"

definition determineFormatSequence :: "string \<Rightarrow> OutputFormat \<Rightarrow> bool \<Rightarrow> bool \<Rightarrow> string list" where
  "determineFormatSequence originalType requestedFormat hasTransparency isPhoto =
     (if requestedFormat \<noteq> Auto then [getImageTypeFromFormat (format_string requestedFormat)]
      else if isOriginalPng originalType then
        (if hasTransparency then [''image/png'', ''image/webp'', ''image/avif'']
         else [''image/png'', ''image/webp'', ''image/avif'', ''image/jpeg''])
      else if isOriginalJpeg originalType then
        (if isPhoto then [''image/jpeg'', ''image/webp'', ''image/avif'']
         else [''image/webp'', ''image/jpeg'', ''image/avif''])
      else if isOriginalWebP originalType then
        [''image/webp'', ''image/avif'', ''image/jpeg'', ''image/png'']
      else if isOriginalAvif originalType then
        [''image/avif'', ''image/webp'', ''image/jpeg'', ''image/png'']
      else if hasTransparency then [''image/png'', ''image/webp'', ''image/avif'']
      else if isPhoto then [''image/webp'', ''image/jpeg'', ''image/avif'', ''image/png'']
      else [''image/webp'', ''image/png'', ''image/avif'', ''image/jpeg''])"

section \<open>Quality search (image-processor.ts)\<close>

text \<open>
  A \<^verbatim>\<open>Blob\<close> is known to the program by its size in bytes only.
\<close>

datatype Blob = Blob (blob_size: nat)

text \<open>
  \<^verbatim>\<open>canvasToBlob(canvas, format, quality)\<close> for the canvas of the run: the blob the promise
  resolves to, or \<open>None\<close> when the promise is rejected (the browser produced no blob).
  The encoder is outside the program; the model takes it as a parameter and assumes
  only that it answers the same call in the same way.
\<close>

type_synonym encoder = "string \<Rightarrow> int \<Rightarrow> Blob option"

text \<open>
  What a run does besides computing its result, in order: the two progress lines it
  logs and the calls of the encoder.
\<close>

datatype event =
    Attempting string
  | TryingReduction int
  | CanvasToBlob string int

fun is_probe :: "event \<Rightarrow> bool" where
  "is_probe (CanvasToBlob f q) = True"
| "is_probe e = False"

fun probes :: "event list \<Rightarrow> nat" where
  "probes es = length (filter is_probe es)"

fun reductions :: "event list \<Rightarrow> int list" where
  "reductions [] = []"
| "reductions (TryingReduction r # es) = r # reductions es"
| "reductions (e # es) = reductions es"

text \<open>
  The acceptance window of one iteration of the relaxation loop. The bounds are exact
  here; the code computes them in double precision, where a bound can differ from the
  exact value in the last place (for a target of 100 and a tolerance of 15 the upper
  bound is \<open>114.99999999999999\<close>), so that a blob whose size equals the exact bound can
  be classified differently. The theorems below do not depend on the value of a bound
  at such a size.
\<close>

definition effectiveLowerBound :: "nat \<Rightarrow> int \<Rightarrow> real" where
  "effectiveLowerBound targetSizeBytes currentLowerBoundReduction =
     real targetSizeBytes * (1 - real_of_int currentLowerBoundReduction / 100)"

definition effectiveUpperBound :: "nat \<Rightarrow> int \<Rightarrow> bool \<Rightarrow> real" where
  "effectiveUpperBound targetSizeBytes upperBoundTolerance strictUpperLimit =
     (if strictUpperLimit then real targetSizeBytes
      else real targetSizeBytes * (1 + real_of_int upperBoundTolerance / 100))"

text \<open>The local variables of the binary search.\<close>

record search =
  minQuality :: int
  maxQuality :: int
  currentQuality :: int
  bestBlob :: "Blob option"
  bestQuality :: int
  attempts :: nat

definition initial_search :: "int \<Rightarrow> search" where
  "initial_search initialQuality =
     \<lparr>minQuality = 1, maxQuality = 100, currentQuality = initialQuality,
      bestBlob = None, bestQuality = 0, attempts = 0\<rparr>"

text \<open>
  The body of the \<^verbatim>\<open>try\<close> block once the blob is there, up to the test for
  \<^verbatim>\<open>break\<close>: the blob is classified against the window and the search range and the
  next quality are updated.
\<close>

definition adjust :: "real \<Rightarrow> real \<Rightarrow> Blob \<Rightarrow> search \<Rightarrow> search" where
  "adjust lo hi blob s =
     (let isUnderUpperBound = real (blob_size blob) \<le> hi;
          isAboveLowerBound = real (blob_size blob) \<ge> lo
      in if isUnderUpperBound \<and> isAboveLowerBound then
           (if bestBlob s = None \<or> currentQuality s > bestQuality s
            then s\<lparr>bestBlob := Some blob, bestQuality := currentQuality s\<rparr> else s)
           \<lparr>minQuality := currentQuality s,
            currentQuality := min \<lceil>real_of_int (currentQuality s + maxQuality s) / 2\<rceil> 100\<rparr>
         else if \<not> isUnderUpperBound then
           s\<lparr>maxQuality := currentQuality s - 1,
             currentQuality := max \<lfloor>real_of_int (minQuality s + (currentQuality s - 1)) / 2\<rfloor> 1\<rparr>
         else
           s\<lparr>minQuality := currentQuality s + 1,
             currentQuality := min \<lceil>real_of_int (currentQuality s + 1 + maxQuality s) / 2\<rceil> 100\<rparr>)"

text \<open>The test that leaves the \<^verbatim>\<open>while\<close> loop early.\<close>

definition should_break :: "search \<Rightarrow> bool" where
  "should_break s =
     ((maxQuality s - minQuality s \<le> 1 \<and> bestBlob s \<noteq> None) \<or> minQuality s > maxQuality s)"

lemma attempts_adjust [simp]: "attempts (adjust lo hi blob s) = attempts s"
  by (simp add: adjust_def Let_def)

text \<open>
  The \<^verbatim>\<open>while (attempts < 10 && maxQuality >= minQuality)\<close> loop. The result \<open>None\<close> is the
  \<^verbatim>\<open>catch\<close> branch, which makes the whole search return \<^verbatim>\<open>null\<close>; otherwise the
  variables at the end of the loop are returned. The second component lists the
  encoder calls made.
\<close>

function binarySearch ::
  "encoder \<Rightarrow> string \<Rightarrow> real \<Rightarrow> real \<Rightarrow> search \<Rightarrow> search option \<times> event list" where
  "binarySearch enc format lo hi s =
     (if attempts s < 10 \<and> maxQuality s \<ge> minQuality s then
        (case enc format (currentQuality s) of
           None \<Rightarrow> (None, [CanvasToBlob format (currentQuality s)])
         | Some blob \<Rightarrow>
             (let s' = adjust lo hi blob (s\<lparr>attempts := attempts s + 1\<rparr>)
              in if should_break s' then (Some s', [CanvasToBlob format (currentQuality s)])
                 else (case binarySearch enc format lo hi s' of
                         (r, es) \<Rightarrow> (r, CanvasToBlob format (currentQuality s) # es))))
      else (Some s, []))"
  by pat_completeness auto
termination
  by (relation "measure (\<lambda>(enc, format, lo, hi, s). 10 - attempts s)") auto

declare binarySearch.simps [simp del]

text \<open>
  The relaxation loop
  \<^verbatim>\<open>for (r = lowerBoundTolerance; r <= 50; r += 5)\<close> with the binary search, the
  return of the best blob and the last-resort probe inside; \<^verbatim>\<open>compressionLevel\<close> is
  passed to the function and never read, so it is left out.
\<close>

function relaxationLoop ::
  "encoder \<Rightarrow> string \<Rightarrow> nat \<Rightarrow> int \<Rightarrow> int \<Rightarrow> bool \<Rightarrow> int \<Rightarrow> (Blob \<times> int) option \<times> event list" where
  "relaxationLoop enc format targetSizeBytes initialQuality upperBoundTolerance strictUpperLimit
      currentLowerBoundReduction =
     (if currentLowerBoundReduction \<le> 50 then
        (case binarySearch enc format
                (effectiveLowerBound targetSizeBytes currentLowerBoundReduction)
                (effectiveUpperBound targetSizeBytes upperBoundTolerance strictUpperLimit)
                (initial_search initialQuality) of
           (None, es) \<Rightarrow> (None, TryingReduction currentLowerBoundReduction # es)
         | (Some s, es) \<Rightarrow>
             (case bestBlob s of
                Some blob \<Rightarrow>
                  (Some (blob, bestQuality s), TryingReduction currentLowerBoundReduction # es)
              | None \<Rightarrow>
                  (if currentLowerBoundReduction \<ge> 50 then
                     (case enc format 1 of
                        Some lastResortBlob \<Rightarrow>
                          (if real (blob_size lastResortBlob)
                                \<le> effectiveUpperBound targetSizeBytes upperBoundTolerance strictUpperLimit
                           then (Some (lastResortBlob, 1),
                                 TryingReduction currentLowerBoundReduction # es @ [CanvasToBlob format 1])
                           else (case relaxationLoop enc format targetSizeBytes initialQuality
                                        upperBoundTolerance strictUpperLimit (currentLowerBoundReduction + 5) of
                                   (r, es') \<Rightarrow>
                                     (r, TryingReduction currentLowerBoundReduction # es
                                           @ [CanvasToBlob format 1] @ es')))
                      | None \<Rightarrow>
                          (case relaxationLoop enc format targetSizeBytes initialQuality
                                  upperBoundTolerance strictUpperLimit (currentLowerBoundReduction + 5) of
                             (r, es') \<Rightarrow>
                               (r, TryingReduction currentLowerBoundReduction # es
                                     @ [CanvasToBlob format 1] @ es')))
                   else (case relaxationLoop enc format targetSizeBytes initialQuality
                                upperBoundTolerance strictUpperLimit (currentLowerBoundReduction + 5) of
                           (r, es') \<Rightarrow> (r, TryingReduction currentLowerBoundReduction # es @ es')))))
      else (None, []))"
  by pat_completeness auto
termination
  by (relation "measure (\<lambda>(enc, format, t, q, u, st, r). nat (51 - r))") auto

declare relaxationLoop.simps [simp del]

text \<open>
  \<^verbatim>\<open>findOptimalQualityForFormat\<close>: the loop started at the lower bound tolerance. The
  first component is the returned \<^verbatim>\<open>{ blob, quality }\<close> or \<^verbatim>\<open>null\<close>.
\<close>

definition findOptimalQualityForFormat ::
  "encoder \<Rightarrow> string \<Rightarrow> nat \<Rightarrow> int \<Rightarrow> int \<Rightarrow> int \<Rightarrow> bool \<Rightarrow> (Blob \<times> int) option \<times> event list" where
  "findOptimalQualityForFormat enc format targetSizeBytes initialQuality lowerBoundTolerance
      upperBoundTolerance strictUpperLimit =
     relaxationLoop enc format targetSizeBytes initialQuality upperBoundTolerance strictUpperLimit
       lowerBoundTolerance"

section \<open>Orchestrator (image-processor.ts)\<close>

record ProcessingOptions =
  targetSizeBytes :: nat
  outputFormat :: OutputFormat
  quality :: int
  maxWidth :: "nat option"
  maxHeight :: "nat option"
  maintainAspectRatio :: bool
  compressionLevel :: int
  lowerBoundTolerance :: "int option"
  upperBoundTolerance :: "int option"
  strictUpperLimit :: "bool option"

text \<open>
  \<^verbatim>\<open>x || d\<close> on an optional number: \<^verbatim>\<open>undefined\<close> and \<^verbatim>\<open>0\<close> are falsy and give \<open>d\<close>.
  An optional flag used as a condition: \<^verbatim>\<open>undefined\<close> counts as \<^verbatim>\<open>false\<close>.
\<close>

fun or_default :: "int option \<Rightarrow> int \<Rightarrow> int" where
  "or_default None d = d"
| "or_default (Some v) d = (if v = 0 then d else v)"

fun flag :: "bool option \<Rightarrow> bool" where
  "flag None = False"
| "flag (Some b) = b"

text \<open>Step 6 of \<^verbatim>\<open>processImage\<close>: the two tolerances handed to the search.\<close>

definition configuredLowerBoundTolerance :: "ProcessingOptions \<Rightarrow> int" where
  "configuredLowerBoundTolerance opts = or_default (lowerBoundTolerance opts) 10"

definition configuredUpperBoundTolerance :: "ProcessingOptions \<Rightarrow> int" where
  "configuredUpperBoundTolerance opts =
     (if flag (strictUpperLimit opts) then 0 else or_default (upperBoundTolerance opts) 10)"

text \<open>
  Step 7: the call of the search for one format with the arguments \<^verbatim>\<open>processImage\<close>
  passes, and the loop over the format sequence, which stops at the first format for
  which the search returns a result. The search catches every rejection of the encoder
  itself, so the \<^verbatim>\<open>catch\<close> around the call is never entered.
\<close>

definition searchFormat :: "encoder \<Rightarrow> ProcessingOptions \<Rightarrow> string \<Rightarrow> (Blob \<times> int) option \<times> event list" where
  "searchFormat enc opts format =
     findOptimalQualityForFormat enc format (targetSizeBytes opts) (quality opts)
       (configuredLowerBoundTolerance opts) (configuredUpperBoundTolerance opts)
       (flag (strictUpperLimit opts))"

fun tryFormats ::
  "encoder \<Rightarrow> ProcessingOptions \<Rightarrow> string list \<Rightarrow> (string \<times> Blob \<times> int) option \<times> event list" where
  "tryFormats enc opts [] = (None, [])"
| "tryFormats enc opts (format # rest) =
     (case searchFormat enc opts format of
        (Some (blob, q), es) \<Rightarrow> (Some (format, blob, q), Attempting format # es)
      | (None, es) \<Rightarrow>
          (case tryFormats enc opts rest of (r, es') \<Rightarrow> (r, Attempting format # es @ es')))"

text \<open>
  The ways in which \<^verbatim>\<open>processImage\<close> fails: the source is not decoded (step 1), the
  canvas has no 2d context (step 3), \<^verbatim>\<open>getImageData\<close> throws (step 4), no format gave a
  result (the \<^verbatim>\<open>Error\<close> thrown in step 8), the blob is not read as a data URL (step 9),
  the blob is not decoded (step 10).
\<close>

datatype error =
    SourceNotDecoded
  | NoContext2D
  | IndexSizeError
  | NoViableEncoding
  | DataUrlFailed
  | ResultNotDecoded

text \<open>
  Steps 5 to 8 of \<^verbatim>\<open>processImage\<close>, for a canvas that was analysed (step 4 gives the two
  flags): the format sequence, the loop over it, and the error of step 8 or the final
  format, blob and quality.
\<close>

definition selectEncoding ::
  "encoder \<Rightarrow> string \<Rightarrow> ProcessingOptions \<Rightarrow> bool \<Rightarrow> bool
     \<Rightarrow> (error + string \<times> Blob \<times> int) \<times> event list" where
  "selectEncoding enc originalType opts hasTransparency isPhoto =
     (case tryFormats enc opts
             (determineFormatSequence originalType (outputFormat opts) hasTransparency isPhoto) of
        (None, es) \<Rightarrow> (Inl NoViableEncoding, es)
      | (Some r, es) \<Rightarrow> (Inr r, es))"

section \<open>Transparency detection (image-processor.ts)\<close>

text \<open>
  The loop variable and the stride of \<^verbatim>\<open>detectTransparency\<close> are JavaScript numbers that
  can leave the integers: a division by zero gives \<^verbatim>\<open>Infinity\<close> (\<^verbatim>\<open>NaN\<close> for 0 / 0),
  \<^verbatim>\<open>Math.floor\<close> keeps both, a sum with \<^verbatim>\<open>NaN\<close> is \<^verbatim>\<open>NaN\<close>, a sum with \<^verbatim>\<open>Infinity\<close> is
  \<^verbatim>\<open>Infinity\<close>, and neither is smaller than any length.
\<close>

datatype jsnum = Finite nat | Infinity | NaN

text \<open>\<^verbatim>\<open>i + 4 * stride\<close>.\<close>

fun advance :: "jsnum \<Rightarrow> jsnum \<Rightarrow> jsnum" where
  "advance (Finite i) (Finite s) = Finite (i + 4 * s)"
| "advance NaN s = NaN"
| "advance i NaN = NaN"
| "advance i s = Infinity"

text \<open>The data of the canvas: four bytes (red, green, blue, alpha) for each pixel.\<close>

type_synonym pixels = "8 word list"

definition sampleSize :: "pixels \<Rightarrow> nat" where
  "sampleSize px = nat \<lfloor>real (length px) / 4 / 100\<rfloor>"

definition stride :: "pixels \<Rightarrow> jsnum" where
  "stride px =
     (if sampleSize px = 0 then (if length px = 0 then NaN else Infinity)
      else Finite (nat \<lfloor>real (length px) / 4 / real (sampleSize px)\<rfloor>))"

text \<open>
  The loop \<^verbatim>\<open>for (let i = 3; i < pixels.length; i += 4 * stride)\<close>. A stride of 0 would
  keep it at the same pixel for ever, so the loop is a partial function and \<open>None\<close>
  stands for a run that does not end.
\<close>

partial_function (option) scanAlpha :: "pixels \<Rightarrow> jsnum \<Rightarrow> jsnum \<Rightarrow> bool option" where
  "scanAlpha px st i =
     (case i of
        Finite k \<Rightarrow>
          (if k < length px then
             (if px ! k < 255 then Some True else scanAlpha px st (advance i st))
           else Some False)
      | Infinity \<Rightarrow> Some False
      | NaN \<Rightarrow> Some False)"

declare scanAlpha.simps [code]

text \<open>
  \<^verbatim>\<open>detectTransparency\<close> on the pixel data of a canvas whose 2d context exists (the
  canvas was created with one in step 3).
\<close>

definition detectTransparency :: "pixels \<Rightarrow> bool option" where
  "detectTransparency px = scanAlpha px (stride px) (Finite 3)"

text \<open>The indices the loop visits: \<open>3\<close>, and further ones at the stride when it is finite.\<close>

definition sampled :: "pixels \<Rightarrow> nat set" where
  "sampled px =
     (case stride px of
        Finite s \<Rightarrow> {k. k < length px \<and> (\<exists>j. k = 3 + 4 * s * j)}
      | Infinity \<Rightarrow> {k. k < length px \<and> k = 3}
      | NaN \<Rightarrow> {k. k < length px \<and> k = 3})"

text \<open>
  The stride as the specification words it, with the divisor guarded:
  \<open>totalPixels / max(1, floor(totalPixels / 100))\<close>, the division being that of whole
  numbers. It is stated here for comparison with \<open>stride\<close>, which follows the code.
\<close>

definition spec_stride :: "pixels \<Rightarrow> nat" where
  "spec_stride px = (length px div 4) div max 1 ((length px div 4) div 100)"

section \<open>Photo or graphic (image-processor.ts)\<close>

text \<open>The counters of \<^verbatim>\<open>analyzeImageCharacteristics\<close>; the set of colour keys is a list
  without repetition.\<close>

record tally =
  uniqueColors :: "(8 word \<times> 8 word \<times> 8 word) list"
  colorCount :: nat
  edgeCount :: nat
  gradientCount :: nat

definition sampleRate :: "pixels \<Rightarrow> nat" where
  "sampleRate px = max 1 (nat \<lfloor>real (length px) / 4 / 10000\<rfloor>)"

lemma sampleRate_pos [simp]: "0 < sampleRate px"
  by (simp add: sampleRate_def)

lemma sampleRate_step: "i < n \<Longrightarrow> n - (i + 4 * sampleRate px) < n - i"
  using sampleRate_pos [of px] by linarith

text \<open>\<^verbatim>\<open>Math.abs(a - b)\<close> on two bytes.\<close>

definition channelDiff :: "8 word \<Rightarrow> 8 word \<Rightarrow> nat" where
  "channelDiff a b = (if unat a \<le> unat b then unat b - unat a else unat a - unat b)"

text \<open>
  The summed difference of the colour at \<open>i\<close> and the colour at \<open>nextIndex\<close>. A read
  past the end of the data gives \<^verbatim>\<open>undefined\<close> and makes the sum \<^verbatim>\<open>NaN\<close>, which is \<open>None\<close>
  here; the loop calls this with \<open>nextIndex\<close> inside the data, so of the six reads
  only the last two can be past the end.
\<close>

definition colorDiff :: "pixels \<Rightarrow> nat \<Rightarrow> nat \<Rightarrow> nat option" where
  "colorDiff px i nextIndex =
     (if nextIndex + 2 < length px then
        Some (channelDiff (px ! i) (px ! nextIndex)
              + channelDiff (px ! (i + 1)) (px ! (nextIndex + 1))
              + channelDiff (px ! (i + 2)) (px ! (nextIndex + 2)))
      else None)"

text \<open>
  The loop \<^verbatim>\<open>for (let i = 0; i < pixels.length; i += 4 * sampleRate)\<close>. Inside the outer
  test \<^verbatim>\<open>i + 4 * sampleRate < pixels.length\<close> the inner test \<^verbatim>\<open>nextIndex < pixels.length\<close>
  is the same test and is not repeated. A comparison with \<^verbatim>\<open>NaN\<close> is false, so a
  difference of \<open>None\<close> counts neither as an edge nor as a gradient.
\<close>

function analyzeLoop :: "pixels \<Rightarrow> nat \<Rightarrow> tally \<Rightarrow> tally" where
  "analyzeLoop px i a =
     (if i < length px then
        analyzeLoop px (i + 4 * sampleRate px)
          (if i + 4 * sampleRate px < length px then
             (let a1 = a\<lparr>uniqueColors := List.insert (px ! i, px ! (i + 1), px ! (i + 2)) (uniqueColors a),
                         colorCount := colorCount a + 1\<rparr>
              in case colorDiff px i (i + 4 * sampleRate px) of
                   None \<Rightarrow> a1
                 | Some diff \<Rightarrow>
                     if diff > 100 then a1\<lparr>edgeCount := edgeCount a1 + 1\<rparr>
                     else if diff > 10 \<and> diff \<le> 100 then a1\<lparr>gradientCount := gradientCount a1 + 1\<rparr>
                     else a1)
           else a)
      else a)"
  by pat_completeness auto
termination
  by (relation "measure (\<lambda>(px, i, a). length px - i)") (auto simp add: sampleRate_step)

declare analyzeLoop.simps [simp del]

text \<open>
  \<^verbatim>\<open>analyzeImageCharacteristics\<close> on the pixel data: the value of \<^verbatim>\<open>isPhoto\<close>. With no
  sample the first ratio is 0 / 0, which is \<^verbatim>\<open>NaN\<close> and not greater than 0.1. The
  ratios are exact here; the source compares doubles (and 0.1 is the double nearest to
  one tenth), which gives the same answers for the counts a canvas can produce.
\<close>

definition analyzeImageCharacteristics :: "pixels \<Rightarrow> bool" where
  "analyzeImageCharacteristics px =
     (let a = analyzeLoop px 0
                \<lparr>uniqueColors = [], colorCount = 0, edgeCount = 0, gradientCount = 0\<rparr>;
          divisor = (if colorCount a = 0 then 1 else colorCount a)
      in colorCount a \<noteq> 0
         \<and> real (length (uniqueColors a)) / real (colorCount a) > 1 / 10
         \<and> real (gradientCount a) / real divisor > real (edgeCount a) / real divisor)"

section \<open>Orchestrator, all steps (image-processor.ts)\<close>

text \<open>
  What the browser does for one run of \<^verbatim>\<open>processImage\<close>:
  \<^item> \<open>bitmap\<close>: the sides of the bitmap that \<^verbatim>\<open>createImageBitmap\<close> makes of the source
    (both positive), or \<open>None\<close> when the source is not fetched or not decoded;
  \<^item> \<open>context2d\<close>: whether \<^verbatim>\<open>getContext('2d')\<close> gives a context;
  \<^item> \<open>drawn w h\<close>: the data of a canvas of \<open>w\<close> by \<open>h\<close> pixels after \<^verbatim>\<open>drawImage\<close>;
  \<^item> \<open>toBlob\<close>: \<^verbatim>\<open>canvasToBlob\<close> on that canvas;
  \<^item> \<open>dataURL\<close>: whether \<^verbatim>\<open>blobToDataURL\<close> resolves for a blob;
  \<^item> \<open>blobBitmap\<close>: the sides of the bitmap \<^verbatim>\<open>createImageBitmap\<close> makes of a blob, or
    \<open>None\<close> when it is rejected.
\<close>

record browser =
  bitmap :: "(nat \<times> nat) option"
  context2d :: bool
  drawn :: "nat \<Rightarrow> nat \<Rightarrow> pixels"
  toBlob :: encoder
  dataURL :: "Blob \<Rightarrow> bool"
  blobBitmap :: "Blob \<Rightarrow> (nat \<times> nat) option"

text \<open>
  \<^verbatim>\<open>ctx.getImageData(0, 0, canvas.width, canvas.height)\<close>: for a width or height of 0
  the call throws an \<^verbatim>\<open>IndexSizeError\<close>, as the HTML standard prescribes.
\<close>

definition getImageData :: "browser \<Rightarrow> nat \<Rightarrow> nat \<Rightarrow> error + pixels" where
  "getImageData b w h = (if w = 0 \<or> h = 0 then Inl IndexSizeError else Inr (drawn b w h))"

text \<open>
  Steps 1 to 3 and the first call of step 4: the source is decoded, the new sides are
  computed, the canvas is created (\<^verbatim>\<open>createCanvasFromImage\<close> throws without a context;
  drawing on a canvas with a side of 0 draws nothing and does not throw), and
  \<^verbatim>\<open>detectTransparency\<close> reads the data of the canvas. Nothing of this is inside a
  \<^verbatim>\<open>try\<close>. \<^verbatim>\<open>analyzeImageCharacteristics\<close> reads the same data a second time.
\<close>

definition canvasPixels :: "browser \<Rightarrow> ProcessingOptions \<Rightarrow> error + pixels" where
  "canvasPixels b opts =
     (case bitmap b of
        None \<Rightarrow> Inl SourceNotDecoded
      | Some (w, h) \<Rightarrow>
          (let d = calculateNewDimensions w h (maxWidth opts) (maxHeight opts)
                     (maintainAspectRatio opts)
           in if \<not> context2d b then Inl NoContext2D
              else getImageData b (nat (width d)) (nat (height d))))"

text \<open>
  The returned \<^verbatim>\<open>ImageData\<close>, without the data URL and the file name, which the claims do
  not read.
\<close>

record ImageData =
  imageType :: string
  imageSize :: nat
  imageWidth :: nat
  imageHeight :: nat

text \<open>Steps 9 and 10, neither inside a \<^verbatim>\<open>try\<close>, and the returned object.\<close>

definition repackage :: "browser \<Rightarrow> string \<times> Blob \<times> int \<Rightarrow> error + ImageData" where
  "repackage b found =
     (case found of
        (finalFormat, blob, q) \<Rightarrow>
          (if \<not> dataURL b blob then Inl DataUrlFailed
           else (case blobBitmap b blob of
                   None \<Rightarrow> Inl ResultNotDecoded
                 | Some (w, h) \<Rightarrow>
                     Inr \<lparr>imageType = finalFormat, imageSize = blob_size blob,
                          imageWidth = w, imageHeight = h\<rparr>)))"

text \<open>
  \<^verbatim>\<open>processImage\<close>. The result \<open>None\<close> stands for a run that does not return, which
  could only come from the loop of \<^verbatim>\<open>detectTransparency\<close>.
\<close>

definition processImage ::
  "browser \<Rightarrow> string \<Rightarrow> ProcessingOptions \<Rightarrow> ((error + ImageData) \<times> event list) option" where
  "processImage b originalType opts =
     (case canvasPixels b opts of
        Inl e \<Rightarrow> Some (Inl e, [])
      | Inr px \<Rightarrow>
          (case detectTransparency px of
             None \<Rightarrow> None
           | Some hasTransparency \<Rightarrow>
               (case selectEncoding (toBlob b) originalType opts hasTransparency
                       (analyzeImageCharacteristics px) of
                  (Inl e, es) \<Rightarrow> Some (Inl e, es)
                | (Inr found, es) \<Rightarrow> Some (repackage b found, es))))"

section \<open>Sample encoders and options\<close>

text \<open>A synthetic encoder whose output grows with the quality, 1000 bytes per step.\<close>

definition linear_encoder :: encoder where
  "linear_encoder format q = Some (Blob (nat (1000 * q)))"

text \<open>An encoder whose output does not depend on the quality.\<close>

definition constant_encoder :: "nat \<Rightarrow> encoder" where
  "constant_encoder n format q = Some (Blob n)"

text \<open>An encoder whose output is larger at quality 1 than at every other quality.\<close>

definition dip_encoder :: encoder where
  "dip_encoder format q = Some (Blob (if q = 1 then 1000 else 100))"


text \<open>
  Options as the panel builds them: a target of \<open>target\<close> bytes, format \<open>auto\<close>, quality
  hint 80, lower tolerance 10, the given upper tolerance, no strict limit.
\<close>

definition panel_options :: "nat \<Rightarrow> int \<Rightarrow> ProcessingOptions" where
  "panel_options target upper =
     \<lparr>targetSizeBytes = target, outputFormat = Auto, quality = 80,
      maxWidth = None, maxHeight = None, maintainAspectRatio = True, compressionLevel = 6,
      lowerBoundTolerance = Some 10, upperBoundTolerance = Some upper,
      strictUpperLimit = Some False\<rparr>"

text \<open>
  A browser that decodes the source to \<open>w\<close> by \<open>h\<close> pixels, draws every canvas opaque
  white, encodes with \<open>enc\<close>, makes a data URL of every blob and decodes every blob to
  \<open>w\<close> by \<open>h\<close> pixels (the sides of the canvas when the options give no bounds).
\<close>

definition white_browser :: "nat \<Rightarrow> nat \<Rightarrow> encoder \<Rightarrow> browser" where
  "white_browser w h enc =
     \<lparr>bitmap = Some (w, h), context2d = True, drawn = (\<lambda>cw ch. replicate (4 * cw * ch) 255),
      toBlob = enc, dataURL = (\<lambda>blob. True), blobBitmap = (\<lambda>blob. Some (w, h))\<rparr>"


section \<open>Invariants of the binary search\<close>

text \<open>The search range and the probed quality stay within 1 to 100.\<close>

definition in_range :: "search \<Rightarrow> bool" where
  "in_range s \<longleftrightarrow> 1 \<le> minQuality s \<and> maxQuality s \<le> 100
      \<and> 1 \<le> currentQuality s \<and> currentQuality s \<le> 100"

text \<open>The best blob, when there is one, is within the upper bound.\<close>

definition best_under :: "real \<Rightarrow> search \<Rightarrow> bool" where
  "best_under hi s \<longleftrightarrow> (case bestBlob s of None \<Rightarrow> True | Some b \<Rightarrow> real (blob_size b) \<le> hi)"

text \<open>The tolerance levels \<open>r, r + 5, r + 10, ...\<close>, \<open>m\<close> of them.\<close>

definition ladder :: "int \<Rightarrow> nat \<Rightarrow> int list" where
  "ladder r m = map (\<lambda>k. r + 5 * int k) [0..<m]"

section \<open>Properties of the dimension calculation\<close>

lemma js_round_of_int [simp]: "js_round (real_of_int k) = k"
  by (simp add: js_round_def)

lemma js_round_of_nat [simp]: "js_round (real n) = int n"
proof -
  have "js_round (real_of_int (int n)) = int n" by (rule js_round_of_int)
  then show ?thesis by simp
qed

lemma js_round_nearest: "\<bar>real_of_int (js_round x) - x\<bar> \<le> 1 / 2"
  unfolding js_round_def by linarith

lemma js_round_nonneg: "0 \<le> x \<Longrightarrow> 0 \<le> js_round x"
  unfolding js_round_def by simp

lemma js_round_le_nat: "x \<le> real n \<Longrightarrow> js_round x \<le> int n"
  unfolding js_round_def by linarith

lemma height_binding:
  fixes W H mw mh :: real
  assumes "0 < W" "0 < H" "0 < mh" "W / H < mw / mh" "mw < W \<or> mh < H"
  shows "mh < H"
proof (rule ccontr)
  assume "\<not> mh < H"
  then have le: "H \<le> mh" by simp
  with assms(5) have lt: "mw < W" by simp
  from assms(2,3,4) have "W * mh < mw * H"
    by (simp add: field_simps)
  moreover from lt assms(2) have "mw * H < W * H"
    by simp
  moreover from le assms(1) have "W * H \<le> W * mh"
    by simp
  ultimately show False by simp
qed

lemma width_binding:
  fixes W H mw mh :: real
  assumes "0 < W" "0 < H" "0 < mh" "\<not> W / H < mw / mh" "mw < W \<or> mh < H"
  shows "mw < W"
proof (rule ccontr)
  assume "\<not> mw < W"
  then have le: "W \<le> mw" by simp
  with assms(5) have lt: "mh < H" by simp
  from assms(2,3,4) have "mw * H \<le> W * mh"
    by (simp add: field_simps)
  moreover from lt assms(1) have "W * mh < W * H"
    by simp
  moreover from le assms(2) have "W * H \<le> mw * H"
    by simp
  ultimately show False by simp
qed

lemma scaled_width_le:
  fixes W H mh :: real
  assumes "0 < W" "0 < H" "mh \<le> H"
  shows "mh * (W / H) \<le> W"
proof -
  from assms have "mh * W \<le> H * W" by simp
  with assms(2) show ?thesis by (simp add: field_simps)
qed

lemma scaled_height_le:
  fixes W H mw :: real
  assumes "0 < W" "0 < H" "mw \<le> W"
  shows "mw / (W / H) \<le> H"
proof -
  from assms have "mw * H \<le> W * H" by simp
  with assms(1) show ?thesis by (simp add: field_simps)
qed

text \<open>
  The four shapes of the result: the original sides, a side set to its bound with the
  other one scaled and rounded, or both sides clamped independently.
\<close>

lemma truthy_iff: "truthy m \<longleftrightarrow> (\<exists>v. m = Some v \<and> 0 < v)"
  by (cases m) auto

lemma calculateNewDimensions_cases:
  assumes "1 \<le> W" "1 \<le> H"
  obtains
    (unchanged) "calculateNewDimensions W H mw mh m = \<lparr>width = int W, height = int H\<rparr>"
  | (by_width) v where "mw = Some v" "0 < v" "v < W" "m"
      "calculateNewDimensions W H mw mh m = \<lparr>width = int v, height = js_round (real v / (real W / real H))\<rparr>"
  | (by_height) v where "mh = Some v" "0 < v" "v < H" "m"
      "calculateNewDimensions W H mw mh m = \<lparr>width = js_round (real v * (real W / real H)), height = int v\<rparr>"
  | (clamped) "\<not> m"
      "calculateNewDimensions W H mw mh m =
         \<lparr>width = (if truthy mw \<and> bound mw < real W then js_round (bound mw) else int W),
          height = (if truthy mh \<and> bound mh < real H then js_round (bound mh) else int H)\<rparr>"
proof (cases m)
  case False
  then show ?thesis
    by (intro clamped) (simp_all add: calculateNewDimensions_def)
next
  case True
  show ?thesis
  proof (cases "truthy mw \<and> truthy mh")
    case both: True
    then obtain a b where ab: "mw = Some a" "0 < a" "mh = Some b" "0 < b"
      by (auto simp: truthy_iff)
    show ?thesis
    proof (cases "a < W \<or> b < H")
      case exceeds: True
      show ?thesis
      proof (cases "real W / real H < real a / real b")
        case hb: True
        have "real b < real H"
          by (rule height_binding [of "real W" _ _ "real a"]) (use assms ab exceeds hb in auto)
        then have "b < H" by simp
        moreover have "calculateNewDimensions W H mw mh m =
            \<lparr>width = js_round (real b * (real W / real H)), height = int b\<rparr>"
          using True ab exceeds hb by (auto simp add: calculateNewDimensions_def)
        ultimately show ?thesis using ab True by (intro by_height)
      next
        case wb: False
        have "real a < real W"
          by (rule width_binding [of _ "real H" "real b"]) (use assms ab exceeds wb in auto)
        then have "a < W" by simp
        moreover have "calculateNewDimensions W H mw mh m =
            \<lparr>width = int a, height = js_round (real a / (real W / real H))\<rparr>"
          using True ab exceeds wb by (auto simp add: calculateNewDimensions_def)
        ultimately show ?thesis using ab True by (intro by_width)
      qed
    next
      case False
      then show ?thesis
        using True ab by (intro unchanged) (auto simp add: calculateNewDimensions_def)
    qed
  next
    case notboth: False
    show ?thesis
    proof (cases "truthy mw \<and> bound mw < real W")
      case w: True
      then obtain a where a: "mw = Some a" "0 < a" "a < W"
        by (auto simp: truthy_iff)
      have "calculateNewDimensions W H mw mh m =
            \<lparr>width = int a, height = js_round (real a / (real W / real H))\<rparr>"
        using True a notboth by (auto simp add: calculateNewDimensions_def)
      then show ?thesis using a True by (intro by_width)
    next
      case now: False
      show ?thesis
      proof (cases "truthy mh \<and> bound mh < real H")
        case h: True
        then obtain b where b: "mh = Some b" "0 < b" "b < H"
          by (auto simp: truthy_iff)
        have "calculateNewDimensions W H mw mh m =
            \<lparr>width = js_round (real b * (real W / real H)), height = int b\<rparr>"
          using True b notboth now by (auto simp add: calculateNewDimensions_def)
        then show ?thesis using b True by (intro by_height)
      next
        case False
        then show ?thesis
          using True notboth now by (intro unchanged) (auto simp add: calculateNewDimensions_def)
      qed
    qed
  qed
qed

lemma js_round_scaled_err:
  fixes v W H :: real
  assumes "0 < H"
  shows "2 * \<bar>real_of_int (js_round (v * (W / H))) * H - v * W\<bar> \<le> H"
proof -
  have "\<bar>real_of_int (js_round (v * (W / H))) - v * (W / H)\<bar> \<le> 1 / 2"
    by (rule js_round_nearest)
  then have "\<bar>real_of_int (js_round (v * (W / H))) - v * (W / H)\<bar> * H \<le> 1 / 2 * H"
    using assms by (intro mult_right_mono) auto
  also have "\<bar>real_of_int (js_round (v * (W / H))) - v * (W / H)\<bar> * H
      = \<bar>(real_of_int (js_round (v * (W / H))) - v * (W / H)) * H\<bar>"
    using assms by (simp add: abs_mult)
  also have "(real_of_int (js_round (v * (W / H))) - v * (W / H)) * H
      = real_of_int (js_round (v * (W / H))) * H - v * W"
    using assms by (simp add: field_simps)
  finally show ?thesis by simp
qed

lemma js_round_half:
  "\<bar>real_of_int (js_round x) - x\<bar> \<le> 1 / 2
   \<and> (0 \<le> x \<and> x < 1 / 2 \<longrightarrow> js_round x = 0)
   \<and> (1 / 2 < x \<longrightarrow> 1 \<le> js_round x)"
  unfolding js_round_def by (intro conjI impI; linarith)

text \<open>
  Claim C7. With aspect preservation and both bounds given (and truthy), an image that
  exceeds either bound is scaled to the binding bound: when the box ratio
  \<open>maxWidth / maxHeight\<close> exceeds the image ratio the height is binding (the height
  becomes \<open>maxHeight\<close>, which is below the original height), otherwise the width is
  binding (the width becomes \<open>maxWidth\<close>, which is below the original width). The other
  side is an integer within one half of the exactly scaled value. A 4000x2000 image in
  a 1000x1000 box becomes 1000x500.
\<close>

theorem calculateNewDimensions_binding_constraint:
  fixes W H mw mh :: nat
  assumes "1 \<le> W" "1 \<le> H" "mw \<noteq> 0" "mh \<noteq> 0" "mw < W \<or> mh < H"
  defines "d \<equiv> calculateNewDimensions W H (Some mw) (Some mh) True"
  shows "(real W / real H < real mw / real mh \<longrightarrow>
            height d = int mh \<and> mh < H
            \<and> \<bar>real_of_int (width d) - real mh * real W / real H\<bar> \<le> 1 / 2)
       \<and> (\<not> real W / real H < real mw / real mh \<longrightarrow>
            width d = int mw \<and> mw < W
            \<and> \<bar>real_of_int (height d) - real mw * real H / real W\<bar> \<le> 1 / 2)
       \<and> calculateNewDimensions 4000 2000 (Some 1000) (Some 1000) True
           = \<lparr>width = 1000, height = 500\<rparr>"
proof -
  have pos: "0 < real W" "0 < real H" "0 < real mw" "0 < real mh"
    using assms(1-4) by simp_all
  have ex: "real mw < real W \<or> real mh < real H"
    using assms(5) by simp
  have c1: "real W / real H < real mw / real mh \<longrightarrow>
            height d = int mh \<and> mh < H
            \<and> \<bar>real_of_int (width d) - real mh * real W / real H\<bar> \<le> 1 / 2"
  proof
    assume hb: "real W / real H < real mw / real mh"
    have d: "d = \<lparr>width = js_round (real mh * (real W / real H)), height = int mh\<rparr>"
      using assms(3-5) hb by (auto simp add: d_def calculateNewDimensions_def)
    have "real mh < real H"
      using pos(1,2,4) hb ex by (rule height_binding)
    then have lt: "mh < H" by simp
    have "\<bar>real_of_int (js_round (real mh * (real W / real H))) - real mh * (real W / real H)\<bar> \<le> 1 / 2"
      by (rule js_round_nearest)
    then show "height d = int mh \<and> mh < H
            \<and> \<bar>real_of_int (width d) - real mh * real W / real H\<bar> \<le> 1 / 2"
      unfolding d using lt by simp
  qed
  have c2: "\<not> real W / real H < real mw / real mh \<longrightarrow>
            width d = int mw \<and> mw < W
            \<and> \<bar>real_of_int (height d) - real mw * real H / real W\<bar> \<le> 1 / 2"
  proof
    assume wb: "\<not> real W / real H < real mw / real mh"
    have d: "d = \<lparr>width = int mw, height = js_round (real mw / (real W / real H))\<rparr>"
      using assms(3-5) wb by (auto simp add: d_def calculateNewDimensions_def)
    have "real mw < real W"
      using pos(1,2,4) wb ex by (rule width_binding)
    then have lt: "mw < W" by simp
    have "\<bar>real_of_int (js_round (real mw / (real W / real H))) - real mw / (real W / real H)\<bar> \<le> 1 / 2"
      by (rule js_round_nearest)
    then show "width d = int mw \<and> mw < W
            \<and> \<bar>real_of_int (height d) - real mw * real H / real W\<bar> \<le> 1 / 2"
      unfolding d using lt by simp
  qed
  have c3: "calculateNewDimensions 4000 2000 (Some 1000) (Some 1000) True
           = \<lparr>width = 1000, height = 500\<rparr>"
    by (simp add: calculateNewDimensions_def js_round_def)
  show ?thesis by (intro conjI c1 c2 c3)
qed

theorem calculateNewDimensions_binding_constraint_witness:
  "(1::nat) \<le> 2000 \<and> (1::nat) \<le> 4000 \<and> (1000::nat) \<noteq> 0 \<and> (1000::nat) < 2000
   \<and> real (2000::nat) / real (4000::nat) < real (1000::nat) / real (1000::nat)
   \<and> height (calculateNewDimensions 2000 4000 (Some 1000) (Some 1000) True) = 1000
   \<and> width (calculateNewDimensions 2000 4000 (Some 1000) (Some 1000) True) = 500
   \<and> \<not> real (4000::nat) / real (2000::nat) < real (1000::nat) / real (1000::nat)
   \<and> width (calculateNewDimensions 4000 2000 (Some 1000) (Some 1000) True) = 1000
   \<and> height (calculateNewDimensions 4000 2000 (Some 1000) (Some 1000) True) = 500"
  using calculateNewDimensions_binding_constraint [of 2000 4000 1000 1000]
    calculateNewDimensions_binding_constraint [of 4000 2000 1000 1000]
  by (simp add: calculateNewDimensions_def js_round_def)

text \<open>
  Claim C8, as stated, fails: a 4000x1 image limited to a width of 1000 gets height
  \<open>Math.round(1000 / 4000) = 0\<close>.
\<close>

theorem calculateNewDimensions_zero_height:
  "\<not> 1 \<le> height (calculateNewDimensions 4000 1 (Some 1000) None True)"
  by (simp add: calculateNewDimensions_def js_round_def)

text \<open>
  Claim C8, amended. For sides of at least 1 both results are integers that are not
  negative, at least one of them is positive, and both are positive when the aspect
  ratio is not preserved. Under aspect preservation either the original sides are
  returned, or one side is set to its bound (at least 1 and below the original) and the
  other, scaled side is an integer within one half of the exactly scaled value: it is
  0 when that value is below one half and at least 1 when it is above one half.
\<close>

theorem calculateNewDimensions_rounded_nonneg:
  fixes W H :: nat and mw mh :: "nat option" and m :: bool
  assumes "1 \<le> W" "1 \<le> H"
  defines "d \<equiv> calculateNewDimensions W H mw mh m"
  shows "0 \<le> width d \<and> 0 \<le> height d
       \<and> (1 \<le> width d \<or> 1 \<le> height d)
       \<and> (\<not> m \<longrightarrow> 1 \<le> width d \<and> 1 \<le> height d)
       \<and> (m \<longrightarrow>
            d = \<lparr>width = int W, height = int H\<rparr>
            \<or> (\<exists>v. mw = Some v \<and> 1 \<le> v \<and> v < W \<and> width d = int v
                   \<and> \<bar>real_of_int (height d) - real v * real H / real W\<bar> \<le> 1 / 2
                   \<and> (real v * real H / real W < 1 / 2 \<longrightarrow> height d = 0)
                   \<and> (1 / 2 < real v * real H / real W \<longrightarrow> 1 \<le> height d))
            \<or> (\<exists>v. mh = Some v \<and> 1 \<le> v \<and> v < H \<and> height d = int v
                   \<and> \<bar>real_of_int (width d) - real v * real W / real H\<bar> \<le> 1 / 2
                   \<and> (real v * real W / real H < 1 / 2 \<longrightarrow> width d = 0)
                   \<and> (1 / 2 < real v * real W / real H \<longrightarrow> 1 \<le> width d)))"
  using assms(1,2)
proof (cases rule: calculateNewDimensions_cases [of W H mw mh m])
  case unchanged
  then have d: "d = \<lparr>width = int W, height = int H\<rparr>"
    by (simp add: d_def)
  show ?thesis unfolding d using assms(1,2) by simp
next
  case (by_width v)
  let ?x = "real v * real H / real W"
  from by_width have d: "d = \<lparr>width = int v, height = js_round ?x\<rparr>"
    using assms(1,2) by (simp add: d_def)
  have x0: "0 \<le> ?x" by simp
  note r = js_round_half [of ?x]
  have scaled: "mw = Some v \<and> 1 \<le> v \<and> v < W \<and> width d = int v
                   \<and> \<bar>real_of_int (height d) - ?x\<bar> \<le> 1 / 2
                   \<and> (?x < 1 / 2 \<longrightarrow> height d = 0)
                   \<and> (1 / 2 < ?x \<longrightarrow> 1 \<le> height d)"
    unfolding d using by_width(1-3) r x0 by simp
  have basic: "0 \<le> width d \<and> 0 \<le> height d \<and> (1 \<le> width d \<or> 1 \<le> height d)"
    unfolding d using by_width(2) x0 by (simp add: js_round_nonneg)
  from scaled basic by_width(4) show ?thesis by blast
next
  case (by_height v)
  let ?x = "real v * real W / real H"
  from by_height have d: "d = \<lparr>width = js_round ?x, height = int v\<rparr>"
    using assms(1,2) by (simp add: d_def)
  have x0: "0 \<le> ?x" by simp
  note r = js_round_half [of ?x]
  have scaled: "mh = Some v \<and> 1 \<le> v \<and> v < H \<and> height d = int v
                   \<and> \<bar>real_of_int (width d) - ?x\<bar> \<le> 1 / 2
                   \<and> (?x < 1 / 2 \<longrightarrow> width d = 0)
                   \<and> (1 / 2 < ?x \<longrightarrow> 1 \<le> width d)"
    unfolding d using by_height(1-3) r x0 by simp
  have basic: "0 \<le> width d \<and> 0 \<le> height d \<and> (1 \<le> width d \<or> 1 \<le> height d)"
    unfolding d using by_height(2) x0 by (simp add: js_round_nonneg)
  from scaled basic by_height(4) show ?thesis by blast
next
  case clamped
  then have d: "d = \<lparr>width = (if truthy mw \<and> bound mw < real W then js_round (bound mw) else int W),
          height = (if truthy mh \<and> bound mh < real H then js_round (bound mh) else int H)\<rparr>"
    by (simp add: d_def)
  show ?thesis unfolding d using clamped(1) assms(1,2)
    by (cases mw; cases mh) auto
qed

theorem calculateNewDimensions_rounded_nonneg_witness:
  "(1::nat) \<le> 4000 \<and> (1::nat) \<le> 1
   \<and> calculateNewDimensions 4000 1 (Some 1000) None True = \<lparr>width = 1000, height = 0\<rparr>
   \<and> real (1000::nat) * real (1::nat) / real (4000::nat) < 1 / 2
   \<and> 1 \<le> width (calculateNewDimensions 4000 1 (Some 1000) None False)
   \<and> 1 \<le> height (calculateNewDimensions 4000 1 (Some 1000) None False)
   \<and> 1 / 2 < real (1000::nat) * real (3000::nat) / real (4000::nat)
   \<and> 1 \<le> height (calculateNewDimensions 4000 3000 (Some 1000) None True)"
  using calculateNewDimensions_rounded_nonneg [of 4000 1 "Some 1000" None True]
    calculateNewDimensions_rounded_nonneg [of 4000 1 "Some 1000" None False]
    calculateNewDimensions_rounded_nonneg [of 4000 3000 "Some 1000" None True]
  by (simp add: calculateNewDimensions_def js_round_def)

text \<open>
  Claim C10. The result is never larger than the original in either side. When the
  image fits every bound that is given (in particular when none is given) the
  original sides are returned.
\<close>

theorem calculateNewDimensions_never_upscales:
  fixes mw mh :: "nat option" and m :: bool
  assumes "1 \<le> W" "1 \<le> H"
  defines "d \<equiv> calculateNewDimensions W H mw mh m"
  shows "width d \<le> int W \<and> height d \<le> int H
       \<and> ((truthy mw \<longrightarrow> real W \<le> bound mw) \<and> (truthy mh \<longrightarrow> real H \<le> bound mh)
            \<longrightarrow> d = \<lparr>width = int W, height = int H\<rparr>)
       \<and> calculateNewDimensions W H None None m = \<lparr>width = int W, height = int H\<rparr>"
proof -
  have none: "calculateNewDimensions W H None None m = \<lparr>width = int W, height = int H\<rparr>"
    by (cases m) (simp_all add: calculateNewDimensions_def)
  have "width d \<le> int W \<and> height d \<le> int H
       \<and> ((truthy mw \<longrightarrow> real W \<le> bound mw) \<and> (truthy mh \<longrightarrow> real H \<le> bound mh)
            \<longrightarrow> d = \<lparr>width = int W, height = int H\<rparr>)"
    using assms(1,2)
  proof (cases rule: calculateNewDimensions_cases [of W H mw mh m])
    case unchanged
    then have d: "d = \<lparr>width = int W, height = int H\<rparr>"
      by (simp add: d_def)
    show ?thesis unfolding d by simp
  next
    case (by_width v)
    then have d: "d = \<lparr>width = int v, height = js_round (real v / (real W / real H))\<rparr>"
      by (simp add: d_def)
    have "real v / (real W / real H) \<le> real H"
      using assms(1,2) by_width(3) by (intro scaled_height_le) auto
    then have "js_round (real v / (real W / real H)) \<le> int H"
      by (rule js_round_le_nat)
    then show ?thesis unfolding d using by_width(1,2,3) by simp
  next
    case (by_height v)
    then have d: "d = \<lparr>width = js_round (real v * (real W / real H)), height = int v\<rparr>"
      by (simp add: d_def)
    have "real v * (real W / real H) \<le> real W"
      using assms(1,2) by_height(3) by (intro scaled_width_le) auto
    then have "js_round (real v * (real W / real H)) \<le> int W"
      by (rule js_round_le_nat)
    then show ?thesis unfolding d using by_height(1,2,3) by simp
  next
    case clamped
    then have d: "d = \<lparr>width = (if truthy mw \<and> bound mw < real W then js_round (bound mw) else int W),
            height = (if truthy mh \<and> bound mh < real H then js_round (bound mh) else int H)\<rparr>"
      by (simp add: d_def)
    show ?thesis unfolding d
      by (cases mw; cases mh) auto
  qed
  with none show ?thesis by simp
qed

theorem calculateNewDimensions_never_upscales_witness:
  "(1::nat) \<le> 4000 \<and> (1::nat) \<le> 3000
   \<and> width (calculateNewDimensions 4000 3000 (Some 1000) (Some 1000) True) \<le> 4000
   \<and> height (calculateNewDimensions 4000 3000 (Some 1000) (Some 1000) True) \<le> 3000
   \<and> truthy (Some 5000) \<and> real (4000::nat) \<le> bound (Some 5000)
   \<and> calculateNewDimensions 4000 3000 (Some 5000) None True = \<lparr>width = 4000, height = 3000\<rparr>"
  using calculateNewDimensions_never_upscales [of 4000 3000 "Some 1000" "Some 1000" True]
    calculateNewDimensions_never_upscales [of 4000 3000 "Some 5000" None True]
  by simp

section \<open>Properties of the format sequencer\<close>

text \<open>
  Claim C2. For \<open>auto\<close> and an original type of the PNG, JPEG, WEBP or AVIF family (the
  families are tested in this order, so a later one applies when the earlier tests
  fail) the sequence is the row of the priority table, for every transparency and
  photo flag. Every sequence the function returns is non-empty and free of duplicates.
\<close>

theorem determineFormatSequence_priority_table:
  "(isOriginalPng t \<longrightarrow>
      determineFormatSequence t Auto tr ph =
        (if tr then [''image/png'', ''image/webp'', ''image/avif'']
         else [''image/png'', ''image/webp'', ''image/avif'', ''image/jpeg'']))
 \<and> (\<not> isOriginalPng t \<and> isOriginalJpeg t \<longrightarrow>
      determineFormatSequence t Auto tr ph =
        (if ph then [''image/jpeg'', ''image/webp'', ''image/avif'']
         else [''image/webp'', ''image/jpeg'', ''image/avif'']))
 \<and> (\<not> isOriginalPng t \<and> \<not> isOriginalJpeg t \<and> isOriginalWebP t \<longrightarrow>
      determineFormatSequence t Auto tr ph =
        [''image/webp'', ''image/avif'', ''image/jpeg'', ''image/png''])
 \<and> (\<not> isOriginalPng t \<and> \<not> isOriginalJpeg t \<and> \<not> isOriginalWebP t \<and> isOriginalAvif t \<longrightarrow>
      determineFormatSequence t Auto tr ph =
        [''image/avif'', ''image/webp'', ''image/jpeg'', ''image/png''])
 \<and> determineFormatSequence t r tr ph \<noteq> []
 \<and> distinct (determineFormatSequence t r tr ph)"
  by (simp add: determineFormatSequence_def)

text \<open>The table on the MIME types a browser reports for the four families.\<close>

theorem determineFormatSequence_priority_table_witness:
  "isOriginalPng ''image/png''
 \<and> determineFormatSequence ''image/png'' Auto True False
      = [''image/png'', ''image/webp'', ''image/avif'']
 \<and> determineFormatSequence ''image/png'' Auto False False
      = [''image/png'', ''image/webp'', ''image/avif'', ''image/jpeg'']
 \<and> \<not> isOriginalPng ''image/jpeg'' \<and> isOriginalJpeg ''image/jpeg''
 \<and> determineFormatSequence ''image/jpeg'' Auto False True
      = [''image/jpeg'', ''image/webp'', ''image/avif'']
 \<and> determineFormatSequence ''image/jpeg'' Auto False False
      = [''image/webp'', ''image/jpeg'', ''image/avif'']
 \<and> \<not> isOriginalPng ''image/webp'' \<and> \<not> isOriginalJpeg ''image/webp''
 \<and> isOriginalWebP ''image/webp''
 \<and> determineFormatSequence ''image/webp'' Auto True False
      = [''image/webp'', ''image/avif'', ''image/jpeg'', ''image/png'']
 \<and> \<not> isOriginalPng ''IMAGE/AVIF'' \<and> \<not> isOriginalJpeg ''IMAGE/AVIF''
 \<and> \<not> isOriginalWebP ''IMAGE/AVIF'' \<and> isOriginalAvif ''IMAGE/AVIF''
 \<and> determineFormatSequence ''IMAGE/AVIF'' Auto False True
      = [''image/avif'', ''image/webp'', ''image/jpeg'', ''image/png'']
 \<and> distinct (determineFormatSequence ''image/png'' Webp True False)"
proof -
  have png: "isOriginalPng ''image/png''"
    by code_simp
  have jpeg: "\<not> isOriginalPng ''image/jpeg''" "isOriginalJpeg ''image/jpeg''"
    by code_simp+
  have webp: "\<not> isOriginalPng ''image/webp''" "\<not> isOriginalJpeg ''image/webp''"
    "isOriginalWebP ''image/webp''"
    by code_simp+
  have avif: "\<not> isOriginalPng ''IMAGE/AVIF''" "\<not> isOriginalJpeg ''IMAGE/AVIF''"
    "\<not> isOriginalWebP ''IMAGE/AVIF''" "isOriginalAvif ''IMAGE/AVIF''"
    by code_simp+
  show ?thesis
    using png jpeg webp avif
      determineFormatSequence_priority_table [of "''image/png''" True False Webp]
      determineFormatSequence_priority_table [of "''image/png''" False False Auto]
      determineFormatSequence_priority_table [of "''image/jpeg''" False True Auto]
      determineFormatSequence_priority_table [of "''image/jpeg''" False False Auto]
      determineFormatSequence_priority_table [of "''image/webp''" True False Auto]
      determineFormatSequence_priority_table [of "''IMAGE/AVIF''" False True Auto]
    by simp
qed

text \<open>
  Claim C5, as stated, fails: for a GIF with transparency the sequence is not
  WEBP, PNG, AVIF, JPEG.
\<close>

theorem determineFormatSequence_other_transparent_counterexample:
  "determineFormatSequence ''image/gif'' Auto True False
     \<noteq> [''image/webp'', ''image/png'', ''image/avif'', ''image/jpeg'']"
  by code_simp

text \<open>
  Claim C5, amended. For \<open>auto\<close>, an original type outside the four families and
  transparency reported, the sequence is PNG, WEBP, AVIF: the formats that keep the
  alpha channel, as for a transparent PNG; JPEG is not tried.
\<close>

theorem determineFormatSequence_other_transparent:
  assumes "\<not> isOriginalPng t" "\<not> isOriginalJpeg t" "\<not> isOriginalWebP t" "\<not> isOriginalAvif t"
  shows "determineFormatSequence t Auto True ph = [''image/png'', ''image/webp'', ''image/avif'']"
  using assms by (simp add: determineFormatSequence_def)

theorem determineFormatSequence_other_transparent_witness:
  "\<not> isOriginalPng ''image/gif'' \<and> \<not> isOriginalJpeg ''image/gif''
 \<and> \<not> isOriginalWebP ''image/gif'' \<and> \<not> isOriginalAvif ''image/gif''
 \<and> determineFormatSequence ''image/gif'' Auto True True
      = [''image/png'', ''image/webp'', ''image/avif'']"
proof -
  have gif: "\<not> isOriginalPng ''image/gif''" "\<not> isOriginalJpeg ''image/gif''"
    "\<not> isOriginalWebP ''image/gif''" "\<not> isOriginalAvif ''image/gif''"
    by code_simp+
  from determineFormatSequence_other_transparent [OF gif, of True] gif
  show ?thesis by simp
qed

section \<open>Properties of the quality search\<close>

lemma ceil_half: "\<lceil>real_of_int x / 2\<rceil> = (x + 1) div 2"
proof -
  have "real_of_int x / 2 = real_of_int x / real_of_int 2" by simp
  then have "\<lceil>real_of_int x / 2\<rceil> = - ((- x) div 2)"
    by (simp only: ceiling_divide_eq_div)
  also have "\<dots> = (x + 1) div 2" by presburger
  finally show ?thesis .
qed

lemma floor_half: "\<lfloor>real_of_int x / 2\<rfloor> = x div 2"
proof -
  have "real_of_int x / 2 = real_of_int x / real_of_int 2" by simp
  then show ?thesis by (simp only: floor_divide_of_int_eq)
qed

lemma in_range_adjust:
  assumes "in_range s" "minQuality s \<le> maxQuality s"
  shows "in_range (adjust lo hi blob s)"
  using assms unfolding in_range_def adjust_def Let_def ceil_half floor_half
  by (auto simp: min_def max_def)

lemma best_under_adjust: "best_under hi s \<Longrightarrow> best_under hi (adjust lo hi blob s)"
  by (auto simp: best_under_def adjust_def Let_def split: option.splits)

text \<open>
  A property that every pass through the loop body keeps holds of the variables with
  which the loop ends.
\<close>

lemma binarySearch_invariant:
  assumes step: "\<And>s blob. P s \<Longrightarrow> attempts s < 10 \<Longrightarrow> minQuality s \<le> maxQuality s
            \<Longrightarrow> enc f (currentQuality s) = Some blob
            \<Longrightarrow> P (adjust lo hi blob (s\<lparr>attempts := attempts s + 1\<rparr>))"
    and "P s" "binarySearch enc f lo hi s = (Some s', es)"
  shows "P s'"
  using assms(2,3)
proof (induction "10 - attempts s" arbitrary: s es rule: less_induct)
  case less
  show ?case
  proof (cases "attempts s < 10 \<and> minQuality s \<le> maxQuality s")
    case False
    with less.prems show ?thesis by (simp add: binarySearch.simps [of enc f lo hi s])
  next
    case True
    show ?thesis
    proof (cases "enc f (currentQuality s)")
      case None
      with True less.prems show ?thesis by (simp add: binarySearch.simps [of enc f lo hi s])
    next
      case (Some blob)
      let ?s = "adjust lo hi blob (s\<lparr>attempts := attempts s + 1\<rparr>)"
      have P: "P ?s"
        using less.prems(1) True Some by (intro step) auto
      show ?thesis
      proof (cases "should_break ?s")
        case True
        with \<open>attempts s < 10 \<and> minQuality s \<le> maxQuality s\<close> Some less.prems(2) P
        show ?thesis by (simp add: binarySearch.simps [of enc f lo hi s])
      next
        case False
        obtain r es' where rec: "binarySearch enc f lo hi ?s = (r, es')"
          by (cases "binarySearch enc f lo hi ?s")
        with True Some False less.prems(2) have "r = Some s'"
          by (simp add: binarySearch.simps [of enc f lo hi s])
        moreover have "10 - attempts ?s < 10 - attempts s"
          using True by (simp, arith)
        ultimately show ?thesis
          using less.hyps [of ?s es'] P rec by simp
      qed
    qed
  qed
qed

text \<open>
  The calls of one binary search: at most 10 less the attempts already made, all of
  them encoder calls for the format; the search ends in the \<^verbatim>\<open>catch\<close> branch exactly
  when one of them was rejected.
\<close>

lemma binarySearch_events:
  assumes "binarySearch enc f lo hi s = (r, es)"
  shows "length es \<le> 10 - attempts s
       \<and> (\<forall>e \<in> set es. \<exists>q. e = CanvasToBlob f q)
       \<and> (r \<noteq> None \<longrightarrow> (\<forall>q. CanvasToBlob f q \<in> set es \<longrightarrow> enc f q \<noteq> None))
       \<and> (r = None \<longrightarrow> (\<exists>q. CanvasToBlob f q \<in> set es \<and> enc f q = None))"
  using assms
proof (induction "10 - attempts s" arbitrary: s es r rule: less_induct)
  case less
  show ?case
  proof (cases "attempts s < 10 \<and> minQuality s \<le> maxQuality s")
    case False
    with less.prems show ?thesis by (auto simp add: binarySearch.simps [of enc f lo hi s])
  next
    case True
    show ?thesis
    proof (cases "enc f (currentQuality s)")
      case None
      with True less.prems show ?thesis by (auto simp add: binarySearch.simps [of enc f lo hi s])
    next
      case (Some blob)
      let ?s = "adjust lo hi blob (s\<lparr>attempts := attempts s + 1\<rparr>)"
      show ?thesis
      proof (cases "should_break ?s")
        case True
        with \<open>attempts s < 10 \<and> minQuality s \<le> maxQuality s\<close> Some less.prems
        show ?thesis by (auto simp add: binarySearch.simps [of enc f lo hi s])
      next
        case False
        obtain r' es' where rec: "binarySearch enc f lo hi ?s = (r', es')"
          by (cases "binarySearch enc f lo hi ?s")
        with True Some False less.prems
        have eq: "r = r'" "es = CanvasToBlob f (currentQuality s) # es'"
          by (simp_all add: binarySearch.simps [of enc f lo hi s])
        have "10 - attempts ?s < 10 - attempts s"
          using True by (simp, arith)
        from less.hyps [OF this rec] True Some show ?thesis
          unfolding eq by auto
      qed
    qed
  qed
qed

lemma relaxationLoop_exit: "50 < r \<Longrightarrow> relaxationLoop enc f t q0 u st r = (None, [])"
  by (simp add: relaxationLoop.simps [of enc f t q0 u st r])

text \<open>One pass through the body of the relaxation loop, by the way it ends.\<close>

lemma relaxationLoop_cases [consumes 1, case_names exit threw found last_resort exhausted relax]:
  assumes run: "relaxationLoop enc f t q0 u st r = (res, es)"
  obtains
    "50 < r" "res = None" "es = []"
  | esb where "r \<le> 50"
      "binarySearch enc f (effectiveLowerBound t r) (effectiveUpperBound t u st) (initial_search q0)
         = (None, esb)"
      "res = None" "es = TryingReduction r # esb"
  | s esb blob where "r \<le> 50"
      "binarySearch enc f (effectiveLowerBound t r) (effectiveUpperBound t u st) (initial_search q0)
         = (Some s, esb)"
      "bestBlob s = Some blob" "res = Some (blob, bestQuality s)" "es = TryingReduction r # esb"
  | s esb blob where "r = 50"
      "binarySearch enc f (effectiveLowerBound t r) (effectiveUpperBound t u st) (initial_search q0)
         = (Some s, esb)"
      "bestBlob s = None" "enc f 1 = Some blob"
      "real (blob_size blob) \<le> effectiveUpperBound t u st"
      "res = Some (blob, 1)" "es = TryingReduction r # esb @ [CanvasToBlob f 1]"
  | s esb where "r = 50"
      "binarySearch enc f (effectiveLowerBound t r) (effectiveUpperBound t u st) (initial_search q0)
         = (Some s, esb)"
      "bestBlob s = None"
      "enc f 1 = None \<or> (\<exists>blob. enc f 1 = Some blob \<and> effectiveUpperBound t u st < real (blob_size blob))"
      "res = None" "es = TryingReduction r # esb @ [CanvasToBlob f 1]"
  | s esb es' where "r < 50"
      "binarySearch enc f (effectiveLowerBound t r) (effectiveUpperBound t u st) (initial_search q0)
         = (Some s, esb)"
      "bestBlob s = None"
      "relaxationLoop enc f t q0 u st (r + 5) = (res, es')" "es = TryingReduction r # esb @ es'"
proof (cases "r \<le> 50")
  case False
  with run have "res = None" "es = []"
    by (simp_all add: relaxationLoop.simps [of enc f t q0 u st r])
  with False that(1) show ?thesis by simp
next
  case le: True
  obtain rb esb where bs:
    "binarySearch enc f (effectiveLowerBound t r) (effectiveUpperBound t u st) (initial_search q0)
       = (rb, esb)"
    by (cases "binarySearch enc f (effectiveLowerBound t r) (effectiveUpperBound t u st) (initial_search q0)")
  show ?thesis
  proof (cases rb)
    case None
    with run le bs have "res = None" "es = TryingReduction r # esb"
      by (simp_all add: relaxationLoop.simps [of enc f t q0 u st r])
    with le bs None that(2) show ?thesis by simp
  next
    case (Some s)
    show ?thesis
    proof (cases "bestBlob s")
      case (Some blob)
      with run le bs \<open>rb = Some s\<close> have "res = Some (blob, bestQuality s)" "es = TryingReduction r # esb"
        by (simp_all add: relaxationLoop.simps [of enc f t q0 u st r])
      with le bs \<open>rb = Some s\<close> Some that(3) show ?thesis by simp
    next
      case None
      show ?thesis
      proof (cases "r < 50")
        case True
        obtain res' es' where rec: "relaxationLoop enc f t q0 u st (r + 5) = (res', es')"
          by (cases "relaxationLoop enc f t q0 u st (r + 5)")
        with run le bs \<open>rb = Some s\<close> None True
        have "res = res'" "es = TryingReduction r # esb @ es'"
          by (simp_all add: relaxationLoop.simps [of enc f t q0 u st r])
        with True bs \<open>rb = Some s\<close> None rec that(6) show ?thesis by simp
      next
        case False
        then have ge: "50 \<le> r" by simp
        with le have r50: "r = 50" by simp
        have rec: "relaxationLoop enc f t q0 u st (r + 5) = (None, [])"
          using r50 by (intro relaxationLoop_exit) simp
        show ?thesis
        proof (cases "\<exists>blob. enc f 1 = Some blob \<and> real (blob_size blob) \<le> effectiveUpperBound t u st")
          case True
          then obtain blob where b: "enc f 1 = Some blob"
            "real (blob_size blob) \<le> effectiveUpperBound t u st" by blast
          with run le bs \<open>rb = Some s\<close> None ge
          have "res = Some (blob, 1)" "es = TryingReduction r # esb @ [CanvasToBlob f 1]"
            by (simp_all add: relaxationLoop.simps [of enc f t q0 u st r])
          with r50 bs \<open>rb = Some s\<close> None b that(4) show ?thesis by simp
        next
          case False
          then have no: "enc f 1 = None \<or> (\<exists>blob. enc f 1 = Some blob \<and> effectiveUpperBound t u st < real (blob_size blob))"
            by (cases "enc f 1") auto
          with run le bs \<open>rb = Some s\<close> None ge rec
          have "res = None" "es = TryingReduction r # esb @ [CanvasToBlob f 1]"
            by (auto simp add: relaxationLoop.simps [of enc f t q0 u st r])
          with r50 bs \<open>rb = Some s\<close> None no that(5) show ?thesis by simp
        qed
      qed
    qed
  qed
qed

lemma reductions_append: "reductions (xs @ ys) = reductions xs @ reductions ys"
  by (induction xs rule: reductions.induct) auto

lemma probes_append: "probes (xs @ ys) = probes xs + probes ys"
  by simp

lemma only_probes:
  assumes "\<forall>e \<in> set es. \<exists>q. e = CanvasToBlob f q"
  shows "reductions es = [] \<and> probes es = length es"
  using assms by (induction es) auto

lemma ladder_Suc: "ladder r (Suc m) = r # ladder (r + 5) m"
proof -
  have "[0..<Suc m] = 0 # map Suc [0..<m]"
    by (simp add: upt_conv_Cons map_Suc_upt del: upt_Suc)
  then show ?thesis
    by (simp add: ladder_def comp_def algebra_simps del: upt_Suc)
qed

lemma ladder_0: "ladder r 0 = []"
  by (simp add: ladder_def)

lemma set_ladder_ge: "x \<in> set (ladder r m) \<Longrightarrow> r \<le> x"
  by (auto simp: ladder_def)

lemma levels_step: "r \<le> 50 \<Longrightarrow> nat ((55 - r) div 5) = Suc (nat ((55 - (r + 5)) div 5))"
proof -
  assume "r \<le> 50"
  then have "0 \<le> (50 - r) div 5" by simp
  moreover have "(55 - r) div 5 = (50 - r) div 5 + 1" by simp
  moreover have "55 - (r + 5) = 50 - r" by simp
  ultimately show ?thesis by (simp add: nat_add_distrib)
qed

lemma relaxationLoop_events:
  assumes "relaxationLoop enc f t q0 u st r = (res, es)"
  shows "reductions es = ladder r (length (reductions es))
       \<and> length (reductions es) \<le> nat ((55 - r) div 5)
       \<and> probes es \<le> 10 * length (reductions es) + (if 50 \<in> set (reductions es) then 1 else 0)
       \<and> (\<forall>e \<in> set es. \<not> is_probe e \<or> (\<exists>q. e = CanvasToBlob f q))
       \<and> (res \<noteq> None \<longrightarrow> (\<forall>q. CanvasToBlob f q \<in> set es \<longrightarrow> enc f q \<noteq> None))
       \<and> ((\<forall>q. enc f q \<noteq> None) \<and> res = None \<longrightarrow> length (reductions es) = nat ((55 - r) div 5))"
  using assms
proof (induction "nat (51 - r)" arbitrary: r res es rule: less_induct)
  case less
  from less.prems show ?case
  proof (cases rule: relaxationLoop_cases)
    case exit
    then show ?thesis by (simp add: ladder_0)
  next
    case (threw esb)
    from binarySearch_events [OF threw(2)]
    have ev: "length esb \<le> 10" "\<forall>e \<in> set esb. \<exists>q. e = CanvasToBlob f q"
      "\<exists>q. CanvasToBlob f q \<in> set esb \<and> enc f q = None"
      by auto
    from only_probes [OF ev(2)] have op: "reductions esb = []" "probes esb = length esb" by auto
    from ev(3) have nt: "\<not> (\<forall>q. enc f q \<noteq> None)" by blast
    have red: "reductions es = [r]"
      unfolding threw(4) by (simp add: op)
    have c1: "reductions es = ladder r (length (reductions es))"
      unfolding red by (simp add: ladder_Suc ladder_0)
    have c2: "length (reductions es) \<le> nat ((55 - r) div 5)"
      unfolding red using threw(1) levels_step [of r] by simp
    have c3: "probes es \<le> 10 * length (reductions es) + (if 50 \<in> set (reductions es) then 1 else 0)"
      unfolding red unfolding threw(4) using op ev(1) by simp
    have c4: "\<forall>e \<in> set es. \<not> is_probe e \<or> (\<exists>q. e = CanvasToBlob f q)"
      unfolding threw(4) using ev(2) by simp
    have c5: "res \<noteq> None \<longrightarrow> (\<forall>q. CanvasToBlob f q \<in> set es \<longrightarrow> enc f q \<noteq> None)"
      using threw(3) by simp
    have c6: "(\<forall>q. enc f q \<noteq> None) \<and> res = None \<longrightarrow> length (reductions es) = nat ((55 - r) div 5)"
      using nt by blast
    show ?thesis by (intro conjI c1 c2 c3 c4 c5 c6)
  next
    case (found s esb blob)
    from binarySearch_events [OF found(2)]
    have ev: "length esb \<le> 10" "\<forall>e \<in> set esb. \<exists>q. e = CanvasToBlob f q"
      "\<forall>q. CanvasToBlob f q \<in> set esb \<longrightarrow> enc f q \<noteq> None"
      by auto
    from only_probes [OF ev(2)] have op: "reductions esb = []" "probes esb = length esb" by auto
    have red: "reductions es = [r]"
      unfolding found(5) by (simp add: op)
    have c1: "reductions es = ladder r (length (reductions es))"
      unfolding red by (simp add: ladder_Suc ladder_0)
    have c2: "length (reductions es) \<le> nat ((55 - r) div 5)"
      unfolding red using found(1) levels_step [of r] by simp
    have c3: "probes es \<le> 10 * length (reductions es) + (if 50 \<in> set (reductions es) then 1 else 0)"
      unfolding red unfolding found(5) using op ev(1) by simp
    have c4: "\<forall>e \<in> set es. \<not> is_probe e \<or> (\<exists>q. e = CanvasToBlob f q)"
      unfolding found(5) using ev(2) by simp
    have c5: "res \<noteq> None \<longrightarrow> (\<forall>q. CanvasToBlob f q \<in> set es \<longrightarrow> enc f q \<noteq> None)"
      unfolding found(5) using ev(3) by simp
    have c6: "(\<forall>q. enc f q \<noteq> None) \<and> res = None \<longrightarrow> length (reductions es) = nat ((55 - r) div 5)"
      using found(4) by simp
    show ?thesis by (intro conjI c1 c2 c3 c4 c5 c6)
  next
    case (last_resort s esb blob)
    from binarySearch_events [OF last_resort(2)]
    have ev: "length esb \<le> 10" "\<forall>e \<in> set esb. \<exists>q. e = CanvasToBlob f q"
      "\<forall>q. CanvasToBlob f q \<in> set esb \<longrightarrow> enc f q \<noteq> None"
      by auto
    from only_probes [OF ev(2)] have op: "reductions esb = []" "probes esb = length esb" by auto
    have red: "reductions es = [50]"
      unfolding last_resort(7) by (simp add: op reductions_append last_resort(1))
    have c1: "reductions es = ladder r (length (reductions es))"
      unfolding red by (simp add: ladder_Suc ladder_0 last_resort(1))
    have c2: "length (reductions es) \<le> nat ((55 - r) div 5)"
      unfolding red by (simp add: last_resort(1))
    have c3: "probes es \<le> 10 * length (reductions es) + (if 50 \<in> set (reductions es) then 1 else 0)"
      unfolding red unfolding last_resort(7) using op ev(1) by simp
    have c4: "\<forall>e \<in> set es. \<not> is_probe e \<or> (\<exists>q. e = CanvasToBlob f q)"
      unfolding last_resort(7) using ev(2) by simp
    have c5: "res \<noteq> None \<longrightarrow> (\<forall>q. CanvasToBlob f q \<in> set es \<longrightarrow> enc f q \<noteq> None)"
      unfolding last_resort(7) using ev(3) last_resort(4) by auto
    have c6: "(\<forall>q. enc f q \<noteq> None) \<and> res = None \<longrightarrow> length (reductions es) = nat ((55 - r) div 5)"
      using last_resort(6) by simp
    show ?thesis by (intro conjI c1 c2 c3 c4 c5 c6)
  next
    case (exhausted s esb)
    from binarySearch_events [OF exhausted(2)]
    have ev: "length esb \<le> 10" "\<forall>e \<in> set esb. \<exists>q. e = CanvasToBlob f q"
      by auto
    from only_probes [OF ev(2)] have op: "reductions esb = []" "probes esb = length esb" by auto
    have red: "reductions es = [50]"
      unfolding exhausted(6) by (simp add: op reductions_append exhausted(1))
    have c1: "reductions es = ladder r (length (reductions es))"
      unfolding red by (simp add: ladder_Suc ladder_0 exhausted(1))
    have c2': "length (reductions es) = nat ((55 - r) div 5)"
      unfolding red by (simp add: exhausted(1))
    then have c2: "length (reductions es) \<le> nat ((55 - r) div 5)" by simp
    have c3: "probes es \<le> 10 * length (reductions es) + (if 50 \<in> set (reductions es) then 1 else 0)"
      unfolding red unfolding exhausted(6) using op ev(1) by simp
    have c4: "\<forall>e \<in> set es. \<not> is_probe e \<or> (\<exists>q. e = CanvasToBlob f q)"
      unfolding exhausted(6) using ev(2) by simp
    have c5: "res \<noteq> None \<longrightarrow> (\<forall>q. CanvasToBlob f q \<in> set es \<longrightarrow> enc f q \<noteq> None)"
      using exhausted(5) by simp
    have c6: "(\<forall>q. enc f q \<noteq> None) \<and> res = None \<longrightarrow> length (reductions es) = nat ((55 - r) div 5)"
      using c2' by simp
    show ?thesis by (intro conjI c1 c2 c3 c4 c5 c6)
  next
    case (relax s esb es')
    from binarySearch_events [OF relax(2)]
    have ev: "length esb \<le> 10" "\<forall>e \<in> set esb. \<exists>q. e = CanvasToBlob f q"
      "\<forall>q. CanvasToBlob f q \<in> set esb \<longrightarrow> enc f q \<noteq> None"
      by auto
    from only_probes [OF ev(2)] have op: "reductions esb = []" "probes esb = length esb" by auto
    have "nat (51 - (r + 5)) < nat (51 - r)" using relax(1) by simp
    note hyp = less.hyps [OF this relax(4)]
    note ih = hyp [THEN conjunct1] hyp [THEN conjunct2, THEN conjunct1]
      hyp [THEN conjunct2, THEN conjunct2, THEN conjunct1]
      hyp [THEN conjunct2, THEN conjunct2, THEN conjunct2, THEN conjunct1]
      hyp [THEN conjunct2, THEN conjunct2, THEN conjunct2, THEN conjunct2, THEN conjunct1]
      hyp [THEN conjunct2, THEN conjunct2, THEN conjunct2, THEN conjunct2, THEN conjunct2]
    have red: "reductions es = r # reductions es'"
      unfolding relax(5) by (simp add: reductions_append op)
    have c1: "reductions es = ladder r (length (reductions es))"
      unfolding red using ih(1) by (simp add: ladder_Suc)
    have c2: "length (reductions es) \<le> nat ((55 - r) div 5)"
      unfolding red using ih(2) relax(1) levels_step [of r] by simp
    have c3: "probes es \<le> 10 * length (reductions es) + (if 50 \<in> set (reductions es) then 1 else 0)"
      unfolding red unfolding relax(5) using ih(3) op ev(1) relax(1) by auto
    have c4: "\<forall>e \<in> set es. \<not> is_probe e \<or> (\<exists>q. e = CanvasToBlob f q)"
      unfolding relax(5) using ih(4) ev(2) by auto
    have c5: "res \<noteq> None \<longrightarrow> (\<forall>q. CanvasToBlob f q \<in> set es \<longrightarrow> enc f q \<noteq> None)"
      unfolding relax(5) using ih(5) ev(3) by auto
    have c6: "(\<forall>q. enc f q \<noteq> None) \<and> res = None \<longrightarrow> length (reductions es) = nat ((55 - r) div 5)"
      unfolding red using ih(6) relax(1) levels_step [of r] by simp
    show ?thesis by (intro conjI c1 c2 c3 c4 c5 c6)
  qed
qed

lemma in_range_attempts [simp]: "in_range (s\<lparr>attempts := n\<rparr>) = in_range s"
  by (simp add: in_range_def)

lemma best_under_attempts [simp]: "best_under hi (s\<lparr>attempts := n\<rparr>) = best_under hi s"
  by (simp add: best_under_def)

lemma in_range_initial: "1 \<le> q0 \<Longrightarrow> q0 \<le> 100 \<Longrightarrow> in_range (initial_search q0)"
  by (simp add: in_range_def initial_search_def)

lemma best_under_initial: "best_under hi (initial_search q0)"
  by (simp add: best_under_def initial_search_def)

lemma binarySearch_best_under:
  assumes "binarySearch enc f lo hi (initial_search q0) = (Some s, es)" "bestBlob s = Some blob"
  shows "real (blob_size blob) \<le> hi"
proof -
  have "best_under hi s"
    by (rule binarySearch_invariant [where P = "best_under hi", OF _ best_under_initial assms(1)])
       (simp add: best_under_adjust)
  with assms(2) show ?thesis by (simp add: best_under_def)
qed

lemma adjust_too_large:
  assumes "hi < real (blob_size blob)"
  shows "bestBlob (adjust lo hi blob s) = bestBlob s"
  using assms by (simp add: adjust_def Let_def)

lemma binarySearch_all_above:
  assumes above: "\<forall>q b. 1 \<le> q \<and> q \<le> 100 \<and> enc f q = Some b \<longrightarrow> hi < real (blob_size b)"
    and q0: "1 \<le> q0" "q0 \<le> 100"
    and run: "binarySearch enc f lo hi (initial_search q0) = (Some s, es)"
  shows "bestBlob s = None"
proof -
  let ?P = "\<lambda>s. in_range s \<and> bestBlob s = None"
  have "?P s"
  proof (rule binarySearch_invariant [where P = ?P, OF _ _ run])
    show "?P (initial_search q0)"
      using q0 by (simp add: in_range_initial) (simp add: initial_search_def)
  next
    fix s blob
    assume P: "?P s" and le: "minQuality s \<le> maxQuality s"
      and enc: "enc f (currentQuality s) = Some blob"
    from P have "1 \<le> currentQuality s" "currentQuality s \<le> 100"
      by (simp_all add: in_range_def)
    with above enc have big: "hi < real (blob_size blob)" by blast
    have "in_range (adjust lo hi blob (s\<lparr>attempts := attempts s + 1\<rparr>))"
      using P le by (intro in_range_adjust) simp_all
    moreover have "bestBlob (adjust lo hi blob (s\<lparr>attempts := attempts s + 1\<rparr>)) = None"
      using P by (simp add: adjust_too_large [OF big])
    ultimately show "?P (adjust lo hi blob (s\<lparr>attempts := attempts s + 1\<rparr>))" by simp
  qed
  then show ?thesis by simp
qed

lemma relaxationLoop_upper_bound:
  assumes "relaxationLoop enc f t q0 u st r = (Some (blob, q), es)"
  shows "real (blob_size blob) \<le> effectiveUpperBound t u st"
  using assms
proof (induction "nat (51 - r)" arbitrary: r es rule: less_induct)
  case less
  from less.prems show ?case
  proof (cases rule: relaxationLoop_cases)
    case (found s esb blob')
    then show ?thesis using binarySearch_best_under [OF found(2)] by simp
  next
    case (relax s esb es')
    have "nat (51 - (r + 5)) < nat (51 - r)" using relax(1) by simp
    from less.hyps [OF this relax(4)] show ?thesis .
  qed simp_all
qed

lemma relaxationLoop_all_above:
  assumes above: "\<forall>q b. 1 \<le> q \<and> q \<le> 100 \<and> enc f q = Some b
              \<longrightarrow> effectiveUpperBound t u st < real (blob_size b)"
    and q0: "1 \<le> q0" "q0 \<le> 100"
    and run: "relaxationLoop enc f t q0 u st r = (res, es)"
  shows "res = None"
  using run
proof (induction "nat (51 - r)" arbitrary: r es rule: less_induct)
  case less
  from less.prems show ?case
  proof (cases rule: relaxationLoop_cases)
    case (found s esb blob)
    with binarySearch_all_above [OF above q0 found(2)] show ?thesis by simp
  next
    case (last_resort s esb blob)
    with above have False by force
    then show ?thesis ..
  next
    case (relax s esb es')
    have "nat (51 - (r + 5)) < nat (51 - r)" using relax(1) by simp
    from less.hyps [OF this relax(4)] show ?thesis .
  qed simp_all
qed

lemmas engine_eval = findOptimalQualityForFormat_def relaxationLoop.simps binarySearch.simps
  adjust_def should_break_def initial_search_def effectiveLowerBound_def effectiveUpperBound_def

text \<open>
  Claim C1, as stated, fails for an encoder whose output is not monotone in the
  quality: with a target of 100 bytes and 10 percent tolerances the upper bound is 110
  bytes, quality 1 gives 1000 bytes, and the search still returns the 100-byte blob it
  found at quality 99.
\<close>

theorem findOptimalQualityForFormat_quality_one_counterexample:
  "dip_encoder ''image/jpeg'' 1 = Some (Blob 1000)
 \<and> effectiveUpperBound 100 10 False < real (blob_size (Blob 1000))
 \<and> fst (findOptimalQualityForFormat dip_encoder ''image/jpeg'' 100 50 10 10 False)
     = Some (Blob 100, 99)"
  by (simp add: engine_eval dip_encoder_def)

text \<open>
  Claim C1, amended. Whatever the encoder does, a returned blob (from the binary search
  or from the last-resort probe) is no larger than the effective upper bound. With a
  quality hint from 1 to 100 the search returns \<^verbatim>\<open>null\<close> when every quality from 1 to 100
  encodes above the upper bound; this is so in particular when quality 1 encodes above
  the upper bound and the encoded size never shrinks as the quality grows.
\<close>

theorem findOptimalQualityForFormat_upper_bound:
  "(fst (findOptimalQualityForFormat enc f t q0 l u st) = Some (blob, q)
      \<longrightarrow> real (blob_size blob) \<le> effectiveUpperBound t u st)
 \<and> (1 \<le> q0 \<and> q0 \<le> 100
      \<and> (\<forall>q b. 1 \<le> q \<and> q \<le> 100 \<and> enc f q = Some b
             \<longrightarrow> effectiveUpperBound t u st < real (blob_size b))
      \<longrightarrow> fst (findOptimalQualityForFormat enc f t q0 l u st) = None)
 \<and> (1 \<le> q0 \<and> q0 \<le> 100
      \<and> (\<forall>q q' b b'. 1 \<le> q \<and> q \<le> q' \<and> enc f q = Some b \<and> enc f q' = Some b'
             \<longrightarrow> blob_size b \<le> blob_size b')
      \<and> enc f 1 = Some b1 \<and> effectiveUpperBound t u st < real (blob_size b1)
      \<longrightarrow> fst (findOptimalQualityForFormat enc f t q0 l u st) = None)"
proof -
  have upper: "real (blob_size blob) \<le> effectiveUpperBound t u st"
    if "fst (findOptimalQualityForFormat enc f t q0 l u st) = Some (blob, q)"
  proof -
    from that obtain es where "relaxationLoop enc f t q0 u st l = (Some (blob, q), es)"
      by (cases "relaxationLoop enc f t q0 u st l") (simp add: findOptimalQualityForFormat_def)
    then show ?thesis by (rule relaxationLoop_upper_bound)
  qed
  have none: "fst (findOptimalQualityForFormat enc f t q0 l u st) = None"
    if "1 \<le> q0" "q0 \<le> 100"
      and "\<forall>q b. 1 \<le> q \<and> q \<le> 100 \<and> enc f q = Some b
             \<longrightarrow> effectiveUpperBound t u st < real (blob_size b)"
  proof -
    obtain res es where run: "relaxationLoop enc f t q0 u st l = (res, es)"
      by (cases "relaxationLoop enc f t q0 u st l")
    from that(3,1,2) run have "res = None"
      by (rule relaxationLoop_all_above)
    with run show ?thesis by (simp add: findOptimalQualityForFormat_def)
  qed
  have mono: "fst (findOptimalQualityForFormat enc f t q0 l u st) = None"
    if "1 \<le> q0" "q0 \<le> 100"
      and m: "\<forall>q q' b b'. 1 \<le> q \<and> q \<le> q' \<and> enc f q = Some b \<and> enc f q' = Some b'
             \<longrightarrow> blob_size b \<le> blob_size b'"
      and one: "enc f 1 = Some b1" "effectiveUpperBound t u st < real (blob_size b1)"
  proof (rule none [OF that(1,2)], intro allI impI)
    fix q b
    assume "1 \<le> q \<and> q \<le> 100 \<and> enc f q = Some b"
    with m one(1) have "blob_size b1 \<le> blob_size b" by blast
    with one(2) show "effectiveUpperBound t u st < real (blob_size b)" by simp
  qed
  from upper none mono show ?thesis by blast
qed

theorem findOptimalQualityForFormat_upper_bound_witness:
  "fst (findOptimalQualityForFormat linear_encoder ''image/jpeg'' 50000 80 10 10 False)
     = Some (Blob 55000, 55)
 \<and> real (blob_size (Blob 55000)) \<le> effectiveUpperBound 50000 10 False
 \<and> (1::int) \<le> 80 \<and> (80::int) \<le> 100
 \<and> effectiveUpperBound 50000 10 False < real (blob_size (Blob 1000000))
 \<and> fst (findOptimalQualityForFormat (constant_encoder 1000000) ''image/jpeg'' 50000 80 10 10 False)
     = None
 \<and> linear_encoder ''image/jpeg'' 1 = Some (Blob 1000)
 \<and> effectiveUpperBound 500 10 False < real (blob_size (Blob 1000))
 \<and> fst (findOptimalQualityForFormat linear_encoder ''image/jpeg'' 500 80 10 10 False) = None"
proof -
  have 1: "fst (findOptimalQualityForFormat linear_encoder ''image/jpeg'' 50000 80 10 10 False)
     = Some (Blob 55000, 55)"
    by (simp add: engine_eval linear_encoder_def)
  have 2: "\<forall>q b. 1 \<le> q \<and> q \<le> 100 \<and> constant_encoder 1000000 ''image/jpeg'' q = Some b
             \<longrightarrow> effectiveUpperBound 50000 10 False < real (blob_size b)"
    by (auto simp add: constant_encoder_def effectiveUpperBound_def)
  have 3: "\<forall>q q' b b'. 1 \<le> q \<and> q \<le> q' \<and> linear_encoder ''image/jpeg'' q = Some b
             \<and> linear_encoder ''image/jpeg'' q' = Some b' \<longrightarrow> blob_size b \<le> blob_size b'"
    by (auto simp add: linear_encoder_def)
  have 4: "linear_encoder ''image/jpeg'' 1 = Some (Blob 1000)"
    by (simp add: linear_encoder_def)
  from findOptimalQualityForFormat_upper_bound
         [where enc = linear_encoder and f = "''image/jpeg''" and t = 50000 and ?q0.0 = 80
            and l = 10 and u = 10 and st = False and blob = "Blob 55000" and q = 55] 1
       findOptimalQualityForFormat_upper_bound
         [where enc = "constant_encoder 1000000" and f = "''image/jpeg''" and t = 50000
            and ?q0.0 = 80 and l = 10 and u = 10 and st = False] 2
       findOptimalQualityForFormat_upper_bound
         [where enc = linear_encoder and f = "''image/jpeg''" and t = 500
            and ?q0.0 = 80 and l = 10 and u = 10 and st = False and ?b1.0 = "Blob 1000"] 3 4
  show ?thesis by (simp add: effectiveUpperBound_def)
qed

lemma ladder_le_50:
  assumes "x \<in> set (ladder l m)" "m \<le> nat ((55 - l) div 5)"
  shows "x \<le> 50"
proof -
  from assms(1) obtain k where k: "k < m" "x = l + 5 * int k"
    by (auto simp: ladder_def)
  with assms(2) have "int k + 1 \<le> (55 - l) div 5" by linarith
  then have "5 * (int k + 1) \<le> 5 * ((55 - l) div 5)" by simp
  also have "\<dots> \<le> 55 - l"
    using mult_div_mod_eq [of 5 "55 - l"] pos_mod_sign [of 5 "55 - l"] by linarith
  finally show ?thesis using k(2) by simp
qed

lemma levels_default: "10 \<le> l \<Longrightarrow> nat ((55 - l) div 5) \<le> 9"
proof -
  assume "10 \<le> l"
  then have "55 - l \<le> 45" by simp
  then have "(55 - l) div 5 \<le> 45 div 5" by (rule zdiv_mono1) simp
  then show ?thesis by simp
qed

text \<open>
  Claim C4. The search always returns: both loops are recursive functions whose
  termination is proved where they are defined. One binary search makes at most 10
  encoder calls. The tolerance levels tried are \<open>l, l + 5, l + 10, ...\<close> in this order
  with none left out and none above 50. The encoder is called at most 10 times for
  each level tried and once more for the last-resort probe, which is at most 91 times
  when the lower tolerance is at least 10. When the encoder never rejects a call, the
  search returns a result or has tried every level up to 50.
\<close>

theorem findOptimalQualityForFormat_probe_budget:
  fixes enc :: encoder and f :: string and t :: nat and q0 l u :: int and st :: bool
  defines "es \<equiv> snd (findOptimalQualityForFormat enc f t q0 l u st)"
  shows "probes (snd (binarySearch enc f lo hi (initial_search q0))) \<le> 10
       \<and> reductions es = ladder l (length (reductions es))
       \<and> (\<forall>x \<in> set (reductions es). x \<le> 50)
       \<and> probes es \<le> 10 * length (reductions es) + 1
       \<and> (10 \<le> l \<longrightarrow> length (reductions es) \<le> 9 \<and> probes es \<le> 91)
       \<and> ((\<forall>q. enc f q \<noteq> None) \<and> fst (findOptimalQualityForFormat enc f t q0 l u st) = None
            \<longrightarrow> reductions es = ladder l (nat ((55 - l) div 5)))"
proof -
  obtain rb esb where bs: "binarySearch enc f lo hi (initial_search q0) = (rb, esb)"
    by (cases "binarySearch enc f lo hi (initial_search q0)")
  from binarySearch_events [OF bs]
  have "length esb \<le> 10" "\<forall>e \<in> set esb. \<exists>q. e = CanvasToBlob f q"
    by (simp_all add: initial_search_def)
  with only_probes [of esb f] have "probes esb \<le> 10" by simp
  with bs have c0: "probes (snd (binarySearch enc f lo hi (initial_search q0))) \<le> 10"
    by simp
  obtain res where run: "relaxationLoop enc f t q0 u st l = (res, es)"
    unfolding es_def findOptimalQualityForFormat_def
    by (cases "relaxationLoop enc f t q0 u st l") simp
  then have res: "fst (findOptimalQualityForFormat enc f t q0 l u st) = res"
    by (simp add: findOptimalQualityForFormat_def)
  note ev = relaxationLoop_events [OF run]
  note c1 = ev [THEN conjunct1]
  note len = ev [THEN conjunct2, THEN conjunct1]
  note pr = ev [THEN conjunct2, THEN conjunct2, THEN conjunct1]
  note full = ev [THEN conjunct2, THEN conjunct2, THEN conjunct2, THEN conjunct2, THEN conjunct2]
  have c2: "\<forall>x \<in> set (reductions es). x \<le> 50"
  proof
    fix x assume "x \<in> set (reductions es)"
    with c1 have "x \<in> set (ladder l (length (reductions es)))" by simp
    then show "x \<le> 50" using len by (rule ladder_le_50)
  qed
  have c3: "probes es \<le> 10 * length (reductions es) + 1"
    using pr by (simp split: if_splits)
  have c4: "10 \<le> l \<longrightarrow> length (reductions es) \<le> 9 \<and> probes es \<le> 91"
  proof
    assume "10 \<le> l"
    with len levels_default [of l] have "length (reductions es) \<le> 9" by simp
    with c3 show "length (reductions es) \<le> 9 \<and> probes es \<le> 91" by simp
  qed
  have c5: "(\<forall>q. enc f q \<noteq> None) \<and> fst (findOptimalQualityForFormat enc f t q0 l u st) = None
            \<longrightarrow> reductions es = ladder l (nat ((55 - l) div 5))"
  proof
    assume "(\<forall>q. enc f q \<noteq> None) \<and> fst (findOptimalQualityForFormat enc f t q0 l u st) = None"
    with res full have "length (reductions es) = nat ((55 - l) div 5)" by simp
    with c1 show "reductions es = ladder l (nat ((55 - l) div 5))" by simp
  qed
  show ?thesis by (intro conjI c0 c1 c2 c3 c4 c5)
qed

theorem findOptimalQualityForFormat_probe_budget_witness:
  "(\<forall>q. constant_encoder 1000000 ''image/jpeg'' q \<noteq> None)
 \<and> fst (findOptimalQualityForFormat (constant_encoder 1000000) ''image/jpeg'' 50000 80 10 10 False) = None
 \<and> reductions (snd (findOptimalQualityForFormat (constant_encoder 1000000) ''image/jpeg'' 50000 80 10 10 False))
     = [10, 15, 20, 25, 30, 35, 40, 45, 50]
 \<and> (10::int) \<le> 10
 \<and> probes (snd (findOptimalQualityForFormat (constant_encoder 1000000) ''image/jpeg'' 50000 80 10 10 False))
     \<le> 91"
proof -
  have 1: "\<forall>q. constant_encoder 1000000 ''image/jpeg'' q \<noteq> None"
    by (simp add: constant_encoder_def)
  have 2: "fst (findOptimalQualityForFormat (constant_encoder 1000000) ''image/jpeg'' 50000 80 10 10 False) = None"
    by (simp add: engine_eval constant_encoder_def)
  have 3: "ladder 10 (nat ((55 - 10) div 5)) = [10, 15, 20, 25, 30, 35, 40, 45, 50]"
    by (simp add: ladder_def upt_rec)
  from findOptimalQualityForFormat_probe_budget
         [where enc = "constant_encoder 1000000" and f = "''image/jpeg''" and t = 50000
            and ?q0.0 = 80 and l = 10 and u = 10 and st = False] 1 2 3
  show ?thesis by simp
qed

section \<open>Properties of the orchestrator\<close>





text \<open>
  Claim C3 on the code. With a strict limit the upper bound is the target, and a stored
  upper tolerance other than 0 enters the bound as the claim says; the bound does not
  depend on the lower-bound reduction, so it is the same in every iteration.
\<close>

lemma effectiveUpperBound_configured:
  "flag (strictUpperLimit opts) \<Longrightarrow>
     effectiveUpperBound (targetSizeBytes opts) (configuredUpperBoundTolerance opts)
       (flag (strictUpperLimit opts)) = real (targetSizeBytes opts)"
  "\<not> flag (strictUpperLimit opts) \<Longrightarrow> upperBoundTolerance opts = Some v \<Longrightarrow> v \<noteq> 0 \<Longrightarrow>
     effectiveUpperBound (targetSizeBytes opts) (configuredUpperBoundTolerance opts)
       (flag (strictUpperLimit opts)) = real (targetSizeBytes opts) * (1 + real_of_int v / 100)"
  by (simp_all add: effectiveUpperBound_def configuredUpperBoundTolerance_def)

text \<open>
  Claim C3 at a stored upper tolerance of 0 without the strict limit, which the panel
  accepts and describes as "up to 0% larger than target": \<^verbatim>\<open>options.upperBoundTolerance || 10\<close>
  takes the 0 for a missing value, the bound for a target of 1000 bytes is 1100 bytes
  instead of 1000, and a blob of 1050 bytes is returned: by steps 5 to 8 for a JPEG
  photograph, and by the whole of \<^verbatim>\<open>processImage\<close> for a white source of 2 by 2 pixels.
\<close>

theorem processImage_zero_upper_tolerance:
  "upperBoundTolerance (panel_options 1000 0) = Some 0
 \<and> flag (strictUpperLimit (panel_options 1000 0)) = False
 \<and> real (targetSizeBytes (panel_options 1000 0)) * (1 + real_of_int 0 / 100) = 1000
 \<and> effectiveUpperBound (targetSizeBytes (panel_options 1000 0))
       (configuredUpperBoundTolerance (panel_options 1000 0))
       (flag (strictUpperLimit (panel_options 1000 0))) = 1100
 \<and> fst (selectEncoding (constant_encoder 1050) ''image/jpeg'' (panel_options 1000 0) False True)
     = Inr (''image/jpeg'', Blob 1050, 99)
 \<and> map_option fst (processImage (white_browser 2 2 (constant_encoder 1050)) ''image/jpeg''
                      (panel_options 1000 0))
     = Some (Inr \<lparr>imageType = ''image/webp'', imageSize = 1050, imageWidth = 2, imageHeight = 2\<rparr>)"
proof -
  have "determineFormatSequence ''image/jpeg'' Auto False True
      = [''image/jpeg'', ''image/webp'', ''image/avif'']"
    by code_simp
  then have steps: "upperBoundTolerance (panel_options 1000 0) = Some 0
 \<and> flag (strictUpperLimit (panel_options 1000 0)) = False
 \<and> real (targetSizeBytes (panel_options 1000 0)) * (1 + real_of_int 0 / 100) = 1000
 \<and> effectiveUpperBound (targetSizeBytes (panel_options 1000 0))
       (configuredUpperBoundTolerance (panel_options 1000 0))
       (flag (strictUpperLimit (panel_options 1000 0))) = 1100
 \<and> fst (selectEncoding (constant_encoder 1050) ''image/jpeg'' (panel_options 1000 0) False True)
     = Inr (''image/jpeg'', Blob 1050, 99)"
    by (simp add: panel_options_def configuredUpperBoundTolerance_def
        configuredLowerBoundTolerance_def selectEncoding_def searchFormat_def engine_eval
        constant_encoder_def)
  have run: "map_option fst (processImage (white_browser 2 2 (constant_encoder 1050)) ''image/jpeg''
                      (panel_options 1000 0))
     = Some (Inr \<lparr>imageType = ''image/webp'', imageSize = 1050, imageWidth = 2, imageHeight = 2\<rparr>)"
    by code_simp
  from steps run show ?thesis by (elim conjE) (intro conjI; assumption)
qed

section \<open>Properties of the transparency detection\<close>

lemma sampleSize_div: "sampleSize px = length px div 400"
proof -
  have "real (length px) / 4 / 100 = real (length px) / real 400" by simp
  then have "\<lfloor>real (length px) / 4 / 100\<rfloor> = int (length px div 400)"
    by (simp only: floor_divide_of_nat_eq)
  then show ?thesis by (simp add: sampleSize_def)
qed

lemma stride_small: "length px < 400 \<Longrightarrow> stride px = (if length px = 0 then NaN else Infinity)"
  by (simp add: stride_def sampleSize_div)

lemma stride_large:
  assumes "400 \<le> length px"
  shows "stride px = Finite (length px div (4 * (length px div 400)))"
proof -
  let ?n = "length px" and ?ss = "length px div 400"
  from assms have pos: "0 < ?ss" by (simp add: div_greater_zero_iff)
  have "real ?n / 4 / real ?ss = real ?n / real (4 * ?ss)" by simp
  then have "\<lfloor>real ?n / 4 / real ?ss\<rfloor> = int (?n div (4 * ?ss))"
    by (simp only: floor_divide_of_nat_eq)
  with pos show ?thesis by (simp add: stride_def sampleSize_div)
qed

lemma stride_ge_100:
  assumes "400 \<le> length px"
  shows "100 \<le> length px div (4 * (length px div 400))"
proof -
  let ?n = "length px" and ?ss = "length px div 400"
  from assms have pos: "0 < 4 * ?ss" by (simp add: div_greater_zero_iff)
  have "100 * (4 * ?ss) = 400 * ?ss" by simp
  also have "\<dots> \<le> ?n" by simp
  finally show ?thesis using pos by (simp add: less_eq_div_iff_mult_less_eq)
qed

lemma spec_stride_large:
  assumes "400 \<le> length px"
  shows "spec_stride px = length px div (4 * (length px div 400))"
proof -
  have a: "length px div 4 div 100 = length px div 400"
    by (simp add: div_mult2_eq [symmetric])
  from assms have "1 \<le> length px div 400" by (simp add: Suc_le_eq div_greater_zero_iff)
  then have "max 1 (length px div 400) = length px div 400" by simp
  then show ?thesis
    by (simp add: spec_stride_def a div_mult2_eq [symmetric])
qed

lemma scanAlpha_finite:
  assumes "0 < s"
  shows "scanAlpha px (Finite s) (Finite i)
           = Some (\<exists>j. i + 4 * s * j < length px \<and> px ! (i + 4 * s * j) < 255)"
proof (induction "length px - i" arbitrary: i rule: less_induct)
  case less
  show ?case
  proof (cases "i < length px")
    case False
    then have "\<not> (\<exists>j. i + 4 * s * j < length px \<and> px ! (i + 4 * s * j) < 255)" by simp
    with False show ?thesis by (simp add: scanAlpha.simps [of px "Finite s" "Finite i"])
  next
    case True
    show ?thesis
    proof (cases "px ! i < 255")
      case t: True
      with True have "i + 4 * s * 0 < length px \<and> px ! (i + 4 * s * 0) < 255" by simp
      then have "\<exists>j. i + 4 * s * j < length px \<and> px ! (i + 4 * s * j) < 255" by blast
      with True t show ?thesis by (simp add: scanAlpha.simps [of px "Finite s" "Finite i"])
    next
      case f: False
      have "length px - (i + 4 * s) < length px - i" using True assms by simp
      from less.hyps [OF this]
      have ih: "scanAlpha px (Finite s) (Finite (i + 4 * s))
           = Some (\<exists>j. i + 4 * s + 4 * s * j < length px \<and> px ! (i + 4 * s + 4 * s * j) < 255)" .
      have "(\<exists>j. i + 4 * s * j < length px \<and> px ! (i + 4 * s * j) < 255)
          \<longleftrightarrow> (\<exists>j. i + 4 * s + 4 * s * j < length px \<and> px ! (i + 4 * s + 4 * s * j) < 255)"
        (is "?L \<longleftrightarrow> ?R")
      proof
        assume ?L
        then obtain j where j: "i + 4 * s * j < length px" "px ! (i + 4 * s * j) < 255" by blast
        with f have "j \<noteq> 0" by (cases j) auto
        then obtain j' where "j = Suc j'" by (cases j) auto
        with j have "i + 4 * s + 4 * s * j' < length px \<and> px ! (i + 4 * s + 4 * s * j') < 255"
          by (simp add: algebra_simps)
        then show ?R by blast
      next
        assume ?R
        then obtain j where "i + 4 * s + 4 * s * j < length px" "px ! (i + 4 * s + 4 * s * j) < 255"
          by blast
        then have "i + 4 * s * Suc j < length px \<and> px ! (i + 4 * s * Suc j) < 255"
          by (simp add: algebra_simps)
        then show ?L by blast
      qed
      with True f ih show ?thesis
        by (simp add: scanAlpha.simps [of px "Finite s" "Finite i"])
    qed
  qed
qed

lemma scanAlpha_once:
  assumes "st = Infinity \<or> st = NaN \<or> (\<exists>s. st = Finite s \<and> length px \<le> i + 4 * s)"
  shows "scanAlpha px st (Finite i) = Some (i < length px \<and> px ! i < 255)"
proof -
  have next_done: "scanAlpha px st (advance (Finite i) st) = Some False"
    using assms
    by (auto simp add: scanAlpha.simps [of px st "advance (Finite i) st"])
  show ?thesis
    using next_done by (simp add: scanAlpha.simps [of px st "Finite i"])
qed

lemma spec_stride_small: "length px < 400 \<Longrightarrow> spec_stride px = length px div 4"
proof -
  assume "length px < 400"
  then have "length px div 4 div 100 = 0"
    by (simp add: div_mult2_eq [symmetric])
  then show ?thesis by (simp add: spec_stride_def)
qed

lemma detectTransparency_small:
  assumes "length px < 400"
  shows "detectTransparency px = Some (3 < length px \<and> px ! 3 < 255)"
  unfolding detectTransparency_def
  by (rule scanAlpha_once) (simp add: stride_small [OF assms])

lemma detectTransparency_large:
  assumes "400 \<le> length px"
  shows "detectTransparency px
           = Some (\<exists>j. 3 + 4 * (length px div (4 * (length px div 400))) * j < length px
                      \<and> px ! (3 + 4 * (length px div (4 * (length px div 400))) * j) < 255)"
  unfolding detectTransparency_def stride_large [OF assms]
  by (rule scanAlpha_finite) (use stride_ge_100 [OF assms] in simp)

lemma detectTransparency_sampled:
  "detectTransparency px = Some (\<exists>k \<in> sampled px. px ! k < 255)"
proof (cases "length px < 400")
  case True
  have "(\<exists>k \<in> sampled px. px ! k < 255) \<longleftrightarrow> (3 < length px \<and> px ! 3 < 255)"
    by (auto simp add: sampled_def stride_small [OF True])
  with detectTransparency_small [OF True] show ?thesis by simp
next
  case False
  then have ge: "400 \<le> length px" by simp
  have "(\<exists>k \<in> sampled px. px ! k < 255)
      \<longleftrightarrow> (\<exists>j. 3 + 4 * (length px div (4 * (length px div 400))) * j < length px
                      \<and> px ! (3 + 4 * (length px div (4 * (length px div 400))) * j) < 255)"
    by (auto simp add: sampled_def stride_large [OF ge])
  with detectTransparency_large [OF ge] show ?thesis by simp
qed

lemma sampled_alpha: "k \<in> sampled px \<Longrightarrow> k < length px \<and> k mod 4 = 3"
proof -
  have "(3 + 4 * s * j) mod 4 = 3" for s j :: nat
    by (simp add: mult.assoc)
  then show "k \<in> sampled px \<Longrightarrow> k < length px \<and> k mod 4 = 3"
    by (cases "stride px") (auto simp add: sampled_def)
qed

lemma detectTransparency_spec_stride:
  "detectTransparency px = scanAlpha px (Finite (spec_stride px)) (Finite 3)"
proof (cases "length px < 400")
  case True
  have "length px = 4 * (length px div 4) + length px mod 4" by simp
  moreover have "length px mod 4 < 4" by simp
  ultimately have "length px \<le> 3 + 4 * (length px div 4)" by linarith
  then have "scanAlpha px (Finite (spec_stride px)) (Finite 3)
      = Some (3 < length px \<and> px ! 3 < 255)"
    by (intro scanAlpha_once) (simp add: spec_stride_small [OF True])
  with detectTransparency_small [OF True] show ?thesis by simp
next
  case False
  then have ge: "400 \<le> length px" by simp
  show ?thesis
    by (simp add: detectTransparency_def stride_large [OF ge] spec_stride_large [OF ge])
qed

text \<open>
  Claim C9, as stated, fails: the code does not guard the divisor. For a raster of 50
  opaque pixels (200 bytes) the divisor \<open>sampleSize\<close> is 0 and the stride is
  \<^verbatim>\<open>Infinity\<close>, not the 50 of the guarded formula.
\<close>

theorem detectTransparency_unguarded_divisor:
  "sampleSize (replicate 200 255) = 0
 \<and> stride (replicate 200 255) = Infinity
 \<and> spec_stride (replicate 200 255) = 50"
  by (simp add: sampleSize_div stride_small spec_stride_small)

text \<open>
  Claim C9, amended. For every raster \<^verbatim>\<open>detectTransparency\<close> returns a boolean, which is
  true exactly when the alpha byte at one of the sampled indices is below 255. The
  stride is \<open>floor(totalPixels / floor(totalPixels / 100))\<close> with the divisor unguarded:
  the divisor is 0 exactly for rasters of fewer than 100 pixels, the stride is then
  \<^verbatim>\<open>Infinity\<close> (\<^verbatim>\<open>NaN\<close> for the empty raster) and only the first pixel is sampled; from
  100 pixels on the stride is the guarded one and at least 100. In every case the
  result is the one that sampling with the guarded stride gives.
\<close>

theorem detectTransparency_total:
  "detectTransparency px = Some (\<exists>k \<in> sampled px. px ! k < 255)
 \<and> (detectTransparency px = Some True \<longrightarrow> (\<exists>k < length px. k mod 4 = 3 \<and> px ! k < 255))
 \<and> (sampleSize px = 0 \<longleftrightarrow> length px < 400)
 \<and> (length px < 400 \<longrightarrow>
       stride px = (if length px = 0 then NaN else Infinity)
       \<and> detectTransparency px = Some (3 < length px \<and> px ! 3 < 255))
 \<and> (400 \<le> length px \<longrightarrow> stride px = Finite (spec_stride px) \<and> 100 \<le> spec_stride px)
 \<and> detectTransparency px = scanAlpha px (Finite (spec_stride px)) (Finite 3)"
proof -
  note c1 = detectTransparency_sampled [of px]
  have c2: "detectTransparency px = Some True \<longrightarrow> (\<exists>k < length px. k mod 4 = 3 \<and> px ! k < 255)"
  proof
    assume "detectTransparency px = Some True"
    with c1 obtain k where "k \<in> sampled px" "px ! k < 255" by auto
    with sampled_alpha [of k px] show "\<exists>k < length px. k mod 4 = 3 \<and> px ! k < 255" by blast
  qed
  have "0 < length px div 400 \<longleftrightarrow> 400 \<le> length px"
    by (simp add: div_greater_zero_iff)
  then have c3: "sampleSize px = 0 \<longleftrightarrow> length px < 400"
    unfolding sampleSize_div by linarith
  have c4: "length px < 400 \<longrightarrow>
       stride px = (if length px = 0 then NaN else Infinity)
       \<and> detectTransparency px = Some (3 < length px \<and> px ! 3 < 255)"
    using stride_small detectTransparency_small by blast
  have c5: "400 \<le> length px \<longrightarrow> stride px = Finite (spec_stride px) \<and> 100 \<le> spec_stride px"
    using stride_large [of px] stride_ge_100 [of px] spec_stride_large [of px] by simp
  note c6 = detectTransparency_spec_stride [of px]
  show ?thesis by (intro conjI c1 c2 c3 c4 c5 c6)
qed

theorem detectTransparency_total_witness:
  "length (replicate 200 (254 :: 8 word)) < 400
 \<and> stride (replicate 200 (254 :: 8 word)) = Infinity
 \<and> detectTransparency (replicate 200 254) = Some True
 \<and> (3::nat) < length (replicate 200 (254 :: 8 word)) \<and> (3::nat) mod 4 = 3
 \<and> replicate 200 (254 :: 8 word) ! 3 < 255
 \<and> 400 \<le> length (replicate 1400 (255 :: 8 word))
 \<and> stride (replicate 1400 (255 :: 8 word)) = Finite 116
 \<and> detectTransparency (replicate 1400 255) = Some False"
proof -
  have s: "spec_stride (replicate 1400 (255 :: 8 word)) = 116"
    by (simp add: spec_stride_def)
  have n: "\<not> (\<exists>k \<in> sampled (replicate 1400 (255 :: 8 word)). replicate 1400 (255 :: 8 word) ! k < 255)"
    by (auto simp add: sampled_def stride_large)
  note small = detectTransparency_total [of "replicate 200 254"]
  note large = detectTransparency_total [of "replicate 1400 255"]
  from small [THEN conjunct2, THEN conjunct2, THEN conjunct2, THEN conjunct1]
  have a: "stride (replicate 200 (254 :: 8 word)) = Infinity"
    "detectTransparency (replicate 200 254) = Some True"
    by simp_all
  from large [THEN conjunct2, THEN conjunct2, THEN conjunct2, THEN conjunct2, THEN conjunct1] s
  have b: "stride (replicate 1400 (255 :: 8 word)) = Finite 116"
    by simp
  from large [THEN conjunct1] n
  have c: "detectTransparency (replicate 1400 255) = Some False"
    by simp
  from a b c show ?thesis by simp
qed

section \<open>Properties of the whole run\<close>









end
